theory Spec2Isabelle
  imports Complex_Main
begin

section \<open>Data model of NNMF.py\<close>

text \<open>
  The script works on numpy arrays of double precision numbers. The embedding reads a
  finite floating point number as the real number it denotes (rounding is left out);
  the values that are not numbers appear only where the script can produce them: the
  initial \<open>np.inf\<close> of \<open>min_intensities\<close> and the result of the division
  \<open>scores /= p.T.dot(x)\<close>.

  An image of shape \<open>(height, width)\<close> is its row-major flattening, a list of
  \<open>height * width\<close> pixels: every operation of the script on an image is pointwise.
  A matrix whose columns are flattened images (\<open>x\<close>, \<open>R\<close>, \<open>W\<close>) or
  coefficient vectors (\<open>H\<close>) is the list of its columns, all of one length.
\<close>

datatype error = AssertionError | ValueError | ZeroDivisionError | IndexError

datatype float64 = Fin real | PInf | NInf | NaN

type_synonym image = "real list"

type_synonym matrix = "real list list"

text \<open>The reader \<open>ImzbReader\<close> of the image store: the fields the script reads.\<close>

record imzb =
  min_mz :: real
  max_mz :: real
  height :: nat
  width :: nat
  get_mz_image :: "real \<Rightarrow> real \<Rightarrow> image"

text \<open>\<open>toolz.partition_all n seq\<close>: consecutive pieces of length \<open>n\<close>, the last one
  shorter. (toolz raises for \<open>n = 0\<close>; the script calls it with 100 only.)\<close>

function partition_all :: "nat \<Rightarrow> 'a list \<Rightarrow> 'a list list" where
  "partition_all n xs =
     (if n = 0 \<or> xs = [] then [] else take n xs # partition_all n (drop n xs))"
  by pat_completeness auto
termination
  by (relation "measure (\<lambda>(n, xs). length xs)") auto

declare partition_all.simps [simp del]

section \<open>Image cleaning (get_mz_images, lines 39-47)\<close>

text \<open>\<open>img[img < 0] = 0\<close>\<close>

definition clamp_negative :: "image \<Rightarrow> image" where
  "clamp_negative img = map (\<lambda>v. if v < 0 then 0 else v) img"

text \<open>
  \<open>np.percentile(img, q)\<close> with numpy's default linear interpolation: the sorted data
  are read at the fractional position \<open>q / 100 * (n - 1)\<close>. On an empty array numpy
  has no position to read; the model reports that as \<open>IndexError\<close>.
\<close>

definition percentile :: "real list \<Rightarrow> real \<Rightarrow> error + real" where
  "percentile a q =
     (if a = [] then Inl IndexError
      else
        let s = sort a;
            n = length a;
            idx = q / 100 * real (n - 1);
            below = nat \<lfloor>idx\<rfloor>;
            above = min (below + 1) (n - 1);
            weight_above = idx - real below;
            weight_below = 1 - weight_above
        in Inr (s ! below * weight_below + s ! above * weight_above))"

text \<open>\<open>img[img > perc] = perc\<close>\<close>

definition clip_above :: "real \<Rightarrow> image \<Rightarrow> image" where
  "clip_above perc img = map (\<lambda>v. if v > perc then perc else v) img"

text \<open>The body of the loop of \<open>get_mz_images\<close> for one bin \<open>(mz, ppm)\<close>. Its last
  line, \<open>imgs[n, :, :] = img\<close>, stores the image in an array of shape
  \<open>(height, width)\<close>: numpy raises for an image of another size.\<close>

definition clean_image :: "imzb \<Rightarrow> real \<times> real \<Rightarrow> error + image" where
  "clean_image rd bin =
     (let img = get_mz_image rd (fst bin) (snd bin);
          img = clamp_negative img
      in case percentile img 99 of
           Inl e \<Rightarrow> Inl e
         | Inr perc \<Rightarrow>
             (let img = clip_above perc img
              in if length img = height rd * width rd then Inr img else Inl ValueError))"

fun get_mz_images :: "imzb \<Rightarrow> (real \<times> real) list \<Rightarrow> error + image list" where
  "get_mz_images rd [] = Inr []"
| "get_mz_images rd (bin # chunk) =
     (case clean_image rd bin of
        Inl e \<Rightarrow> Inl e
      | Inr img \<Rightarrow>
          (case get_mz_images rd chunk of
             Inl e \<Rightarrow> Inl e
           | Inr imgs \<Rightarrow> Inr (img # imgs)))"

text \<open>The image the noise statistics loop works on (lines 132-133):
  \<open>orig_img = imzb.get_mz_image(mz, ppm); orig_img[orig_img < 0] = 0\<close>.\<close>

definition orig_img :: "imzb \<Rightarrow> real \<times> real \<Rightarrow> image" where
  "orig_img rd bin = clamp_negative (get_mz_image rd (fst bin) (snd bin))"

section \<open>NNLS projection (nnls_frob, lines 75-86)\<close>

text \<open>
  \<open>nnlsm_blockpivot\<close> lives in \<open>external/nnls.py\<close>; the script uses component
  \<open>[0]\<close> of what it returns. It is a parameter of the model: given the anchor
  columns and the target columns it returns the coefficient columns.
\<close>

type_synonym solver = "matrix \<Rightarrow> matrix \<Rightarrow> matrix"

text \<open>\<open>x[:, idx]\<close>: the columns at the given positions. Every use in the script takes
  positions below the number of columns (a range, or results of \<open>argmax\<close> and
  \<open>argsort\<close>).\<close>

definition columns :: "'a list \<Rightarrow> nat list \<Rightarrow> 'a list" where
  "columns x idx = map (\<lambda>j. x ! j) idx"

text \<open>\<open>result[:, chunk] = sol\<close> for \<open>result\<close> with \<open>k\<close> rows: numpy takes a solution of
  shape \<open>(k, len(chunk))\<close> and raises otherwise (shapes that numpy would broadcast are
  not what the solver returns and are treated as a mismatch).\<close>

definition assign_columns :: "matrix \<Rightarrow> nat \<Rightarrow> nat list \<Rightarrow> matrix \<Rightarrow> error + matrix" where
  "assign_columns result k chunk sol =
     (if length sol = length chunk \<and> list_all (\<lambda>c. length c = k) sol
      then Inr (fold (\<lambda>(j, c) res. res[j := c]) (zip chunk sol) result)
      else Inl ValueError)"

fun nnls_chunks :: "solver \<Rightarrow> matrix \<Rightarrow> matrix \<Rightarrow> nat list list \<Rightarrow> matrix \<Rightarrow> error + matrix" where
  "nnls_chunks solve x x_sel [] result = Inr result"
| "nnls_chunks solve x x_sel (chunk # chunks) result =
     (let residuals = columns x chunk
      in case assign_columns result (length x_sel) chunk (solve x_sel residuals) of
           Inl e \<Rightarrow> Inl e
         | Inr result' \<Rightarrow> nnls_chunks solve x x_sel chunks result')"

definition nnls_frob :: "solver \<Rightarrow> matrix \<Rightarrow> matrix \<Rightarrow> error + matrix" where
  "nnls_frob solve x anchors =
     (let ncols = length x;
          x_sel = anchors;
          result = replicate ncols (replicate (length x_sel) 0)
      in nnls_chunks solve x x_sel (partition_all 100 [0..<ncols]) result)"

section \<open>Column selection (XRay loop, lines 95-113)\<close>

text \<open>\<open>(u * v).sum()\<close> of two vectors of one length.\<close>

definition dot :: "real list \<Rightarrow> real list \<Rightarrow> real" where
  "dot u v = sum_list (map2 (*) u v)"

text \<open>Floating point division of two finite numbers: numpy warns and returns
  \<open>nan\<close> or an infinity when the divisor is zero.\<close>

definition fdiv :: "real \<Rightarrow> real \<Rightarrow> float64" where
  "fdiv a b =
     (if b \<noteq> 0 then Fin (a / b)
      else if a = 0 then NaN
      else if a > 0 then PInf
      else NInf)"

text \<open>The comparison \<open><=\<close> of two doubles: false as soon as one is \<open>nan\<close>.\<close>

fun fle :: "float64 \<Rightarrow> float64 \<Rightarrow> bool" where
  "fle NaN _ = False"
| "fle _ NaN = False"
| "fle NInf _ = True"
| "fle _ PInf = True"
| "fle (Fin a) (Fin b) = (a \<le> b)"
| "fle (Fin a) NInf = False"
| "fle PInf (Fin b) = False"
| "fle PInf NInf = False"

text \<open>\<open>scores = (R * x).sum(axis=0); scores /= p.T.dot(x)\<close>: one score per column.\<close>

definition scores_of :: "matrix \<Rightarrow> matrix \<Rightarrow> real list \<Rightarrow> float64 list" where
  "scores_of R x p = map2 (\<lambda>r c. fdiv (dot r c) (dot p c)) R x"

text \<open>\<open>scores[cols] = -1\<close>\<close>

definition exclude :: "nat list \<Rightarrow> float64 list \<Rightarrow> float64 list" where
  "exclude cols scores = fold (\<lambda>c s. s[c := Fin (- 1)]) cols scores"

text \<open>\<open>np.argmax\<close> as numpy's loop over doubles computes it: the first position of the
  maximum, where a \<open>nan\<close> counts as maximal; \<open>ValueError\<close> on an empty array.\<close>

fun argmax_loop :: "float64 list \<Rightarrow> nat \<Rightarrow> float64 \<Rightarrow> nat \<Rightarrow> nat" where
  "argmax_loop [] i mp max_ind = max_ind"
| "argmax_loop (v # vs) i mp max_ind =
     (if \<not> fle v mp
      then (if v = NaN then i else argmax_loop vs (i + 1) v i)
      else argmax_loop vs (i + 1) mp max_ind)"

definition argmax :: "float64 list \<Rightarrow> error + nat" where
  "argmax a =
     (case a of
        [] \<Rightarrow> Inl ValueError
      | v # vs \<Rightarrow> if v = NaN then Inr 0 else Inr (argmax_loop vs 1 v 0))"

text \<open>\<open>A.dot(h)\<close> for a matrix with \<open>n\<close> rows, given by its columns, and a
  coefficient vector with one entry per column.\<close>

definition lincomb :: "nat \<Rightarrow> matrix \<Rightarrow> real list \<Rightarrow> real list" where
  "lincomb n A h = map (\<lambda>p. sum_list (map2 (\<lambda>a c. a ! p * c) A h)) [0..<n]"

text \<open>\<open>R = x - da.dot(x[:, cols], H)\<close>\<close>

definition residual :: "nat \<Rightarrow> matrix \<Rightarrow> matrix \<Rightarrow> matrix \<Rightarrow> matrix" where
  "residual n x x_sel H = map2 (\<lambda>c h. map2 (-) c (lincomb n x_sel h)) x H"

text \<open>
  The \<open>while\<close> loop. \<open>rnd i\<close> gives the components of the \<open>i\<close>-th random probe
  \<open>da.random.random(x.shape[0])\<close> (one probe per iteration, so \<open>i = len(cols)\<close>),
  \<open>nrows\<close> is \<open>x.shape[0]\<close>. The relative error printed every five columns is
  output only and is left out.
\<close>

function xray_loop ::
  "solver \<Rightarrow> (nat \<Rightarrow> nat \<Rightarrow> real) \<Rightarrow> nat \<Rightarrow> matrix \<Rightarrow> int \<Rightarrow> nat list \<Rightarrow> matrix
     \<Rightarrow> error + nat list \<times> matrix" where
  "xray_loop solve rnd nrows x r cols R =
     (if int (length cols) < r then
        (let p = map (rnd (length cols)) [0..<nrows];
             scores = scores_of R x p;
             scores = exclude cols scores
         in case argmax scores of
              Inl e \<Rightarrow> Inl e
            | Inr best_col \<Rightarrow>
                if best_col \<in> set cols then Inl AssertionError
                else
                  (case nnls_frob solve x (columns x (cols @ [best_col])) of
                     Inl e \<Rightarrow> Inl e
                   | Inr H \<Rightarrow>
                       xray_loop solve rnd nrows x r (cols @ [best_col])
                         (residual nrows x (columns x (cols @ [best_col])) H)))
      else Inr (cols, R))"
  by pat_completeness auto
termination
  by (relation "measure (\<lambda>(solve, rnd, nrows, x, r, cols, R). nat (r - int (length cols)))")
     auto

declare xray_loop.simps [simp del]

section \<open>Noise statistics (lines 124-155)\<close>

text \<open>The three lists of \<open>noise_stats\<close> and the array \<open>min_intensities\<close>.\<close>

record noise_state =
  prob :: "real list"
  sqrt_median :: "real list"
  sqrt_std :: "real list"
  min_intensities :: "float64 list"

text \<open>\<open>np.minimum(m, v)\<close> for an entry \<open>m\<close> of \<open>min_intensities\<close> and a finite
  intensity \<open>v\<close>.\<close>

fun np_minimum :: "float64 \<Rightarrow> real \<Rightarrow> float64" where
  "np_minimum (Fin a) v = Fin (min a v)"
| "np_minimum PInf v = Fin v"
| "np_minimum NInf v = NInf"
| "np_minimum NaN v = NaN"

text \<open>\<open>mask = orig_img > 0;
  min_intensities[mask] = np.minimum(min_intensities[mask], orig_img[mask])\<close>\<close>

definition update_min :: "float64 list \<Rightarrow> image \<Rightarrow> float64 list" where
  "update_min m img = map2 (\<lambda>a v. if v > 0 then np_minimum a v else a) m img"

text \<open>\<open>np.median\<close> and \<open>np.std\<close> (the population standard deviation) of a non-empty
  array.\<close>

definition median :: "real list \<Rightarrow> real" where
  "median a =
     (let s = sort a; n = length a
      in if odd n then s ! (n div 2) else (s ! (n div 2 - 1) + s ! (n div 2)) / 2)"

definition mean :: "real list \<Rightarrow> real" where
  "mean a = sum_list a / real (length a)"

definition std :: "real list \<Rightarrow> real" where
  "std a = sqrt (mean (map (\<lambda>v. (v - mean a)\<^sup>2) a))"

text \<open>\<open>diff = orig_img - approx_img\<close> with
  \<open>approx_img = W.dot(H_full[:, i]).reshape((imzb.height, imzb.width))\<close>.\<close>

definition approx_img :: "imzb \<Rightarrow> matrix \<Rightarrow> matrix \<Rightarrow> nat \<Rightarrow> image" where
  "approx_img rd W H_full i = lincomb (height rd * width rd) W (H_full ! i)"

definition diff_img :: "imzb \<Rightarrow> matrix \<Rightarrow> matrix \<Rightarrow> nat \<Rightarrow> real \<times> real \<Rightarrow> image" where
  "diff_img rd W H_full i bin = map2 (-) (orig_img rd bin) (approx_img rd W H_full i)"

text \<open>
  One iteration of the loop over \<open>enumerate(mz_axis)\<close>. The first three tests are
  numpy's: a column \<open>i\<close> that \<open>H_full\<close> does not have, a product or a reshape whose
  sizes do not fit (the columns of \<open>W\<close> are flattened images of
  \<open>height * width\<close> pixels), and the subtraction of two images of different shapes.
  The division is Python's and raises for an image without pixels. The percentage
  printed is output only and is left out.
\<close>

definition noise_bin ::
  "imzb \<Rightarrow> matrix \<Rightarrow> matrix \<Rightarrow> nat \<Rightarrow> real \<times> real \<Rightarrow> noise_state \<Rightarrow> error + noise_state" where
  "noise_bin rd W H_full i bin st =
     (let orig = orig_img rd bin in
      if \<not> i < length H_full then Inl IndexError
      else if length W \<noteq> length (H_full ! i)
              \<or> \<not> list_all (\<lambda>c. length c = height rd * width rd) W then Inl ValueError
      else if length orig \<noteq> height rd * width rd then Inl ValueError
      else
        let diff = diff_img rd W H_full i bin;
            noise = filter (\<lambda>d. d > 0) diff;
            mins = update_min (min_intensities st) orig
        in if width rd * height rd = 0 then Inl ZeroDivisionError
           else
             let noise_prob = real (length noise) / real (width rd * height rd)
             in if noise_prob > 0
                then
                  (let noise = map sqrt noise
                   in Inr \<lparr>prob = prob st @ [noise_prob],
                           sqrt_median = sqrt_median st @ [median noise],
                           sqrt_std = sqrt_std st @ [std noise],
                           min_intensities = mins\<rparr>)
                else
                  Inr \<lparr>prob = prob st @ [noise_prob],
                       sqrt_median = sqrt_median st @ [0],
                       sqrt_std = sqrt_std st @ [0],
                       min_intensities = mins\<rparr>)"

fun noise_loop ::
  "imzb \<Rightarrow> matrix \<Rightarrow> matrix \<Rightarrow> nat \<Rightarrow> (real \<times> real) list \<Rightarrow> noise_state \<Rightarrow> error + noise_state" where
  "noise_loop rd W H_full i [] st = Inr st"
| "noise_loop rd W H_full i (bin # rest) st =
     (case noise_bin rd W H_full i bin st of
        Inl e \<Rightarrow> Inl e
      | Inr st' \<Rightarrow> noise_loop rd W H_full (i + 1) rest st')"

text \<open>The state before the loop: empty lists, and
  \<open>min_intensities = np.zeros((height, width)); min_intensities[:] = np.inf\<close>.\<close>

definition noise_init :: "imzb \<Rightarrow> noise_state" where
  "noise_init rd =
     \<lparr>prob = [], sqrt_median = [], sqrt_std = [],
      min_intensities = replicate (height rd * width rd) PInf\<rparr>"

definition noise_statistics :: "imzb \<Rightarrow> matrix \<Rightarrow> matrix \<Rightarrow> (real \<times> real) list \<Rightarrow> error + noise_state" where
  "noise_statistics rd W H_full mz_axis = noise_loop rd W H_full 0 mz_axis (noise_init rd)"

section \<open>The script as a whole\<close>

text \<open>The parsed command line (\<open>input\<close> and \<open>output\<close> are the two paths).\<close>

record args =
  input_path :: string
  output_path :: string
  instrument :: string
  res200 :: real
  rank :: int

text \<open>
  What the script takes from outside: the reader opened on the input file, the axis
  generator of \<open>mz_axis.py\<close> (the instrument is built from the arguments), the solver
  and the random numbers.
\<close>

record env =
  ImzbReader :: "string \<Rightarrow> imzb"
  generate_mz_axis :: "real \<Rightarrow> real \<Rightarrow> args \<Rightarrow> (real \<times> real) list"
  nnlsm_blockpivot :: solver
  random_draw :: "nat \<Rightarrow> nat \<Rightarrow> real"

text \<open>The arrays of the archive written by \<open>np.savez_compressed\<close>.\<close>

record archive =
  arc_W :: matrix
  arc_H :: matrix
  arc_mz_axis :: "(real \<times> real) list"
  arc_shape :: "nat \<times> nat"
  arc_noise_prob :: "real list"
  arc_noise_sqrt_avg :: "real list"
  arc_noise_sqrt_std :: "real list"
  arc_min_intensities :: "float64 list"

text \<open>How a run ends: \<open>sys.exit\<close> after a message on standard output, an exception
  nobody catches, or the archive written to the output path.\<close>

datatype outcome = Exited string int | Raised error | Saved string archive

definition K :: nat where
  "K = 100"

definition N_bright :: nat where
  "N_bright = 500"

text \<open>The dask array \<open>arr\<close>, computed: the chunks of cleaned images, one after the
  other.\<close>

fun compute_arr :: "imzb \<Rightarrow> (real \<times> real) list list \<Rightarrow> error + image list" where
  "compute_arr rd [] = Inr []"
| "compute_arr rd (mz_chunk # chunks) =
     (case get_mz_images rd mz_chunk of
        Inl e \<Rightarrow> Inl e
      | Inr imgs \<Rightarrow>
          (case compute_arr rd chunks of
             Inl e \<Rightarrow> Inl e
           | Inr others \<Rightarrow> Inr (imgs @ others)))"

text \<open>\<open>a.argsort()\<close>: the positions in ascending order of the values. (Among equal
  values numpy's order is not specified; the model keeps them in their order.)\<close>

definition argsort :: "real list \<Rightarrow> nat list" where
  "argsort a = map snd (sort_key fst (zip a [0..<length a]))"

text \<open>Lines 29-162, after the test of the rank.\<close>

definition factorize :: "env \<Rightarrow> args \<Rightarrow> error + archive" where
  "factorize ev a =
     (let imzb = ImzbReader ev (input_path a);
          mz_range = (min_mz imzb - 0.1, max_mz imzb + 0.1)
      in if \<not> fst mz_range > 0 then Inl AssertionError
         else if \<not> snd mz_range > 1 then Inl AssertionError
         else
           let mz_axis = generate_mz_axis ev (fst mz_range) (snd mz_range) a;
               mz_axis_chunks = partition_all K mz_axis
           in case compute_arr imzb mz_axis_chunks of
                Inl e \<Rightarrow> Inl e
              | Inr arr \<Rightarrow>
                  let image_intensities = map sum_list arr;
                      bright_images_pos = take N_bright (rev (argsort image_intensities));
                      arr_pos = columns arr bright_images_pos;
                      r = rank a;
                      x = arr_pos
                  in case xray_loop (nnlsm_blockpivot ev) (random_draw ev)
                            (height imzb * width imzb) x r [] x of
                       Inl e \<Rightarrow> Inl e
                     | Inr (cols, R) \<Rightarrow>
                         let W = columns x cols
                         in case nnls_frob (nnlsm_blockpivot ev) arr (columns arr_pos cols) of
                              Inl e \<Rightarrow> Inl e
                            | Inr H_full \<Rightarrow>
                                (case noise_statistics imzb W H_full mz_axis of
                                   Inl e \<Rightarrow> Inl e
                                 | Inr st \<Rightarrow>
                                     Inr \<lparr>arc_W = W, arc_H = H_full, arc_mz_axis = mz_axis,
                                          arc_shape = (height imzb, width imzb),
                                          arc_noise_prob = prob st,
                                          arc_noise_sqrt_avg = sqrt_median st,
                                          arc_noise_sqrt_std = sqrt_std st,
                                          arc_min_intensities = min_intensities st\<rparr>))"

text \<open>Lines 24-27, then the rest.\<close>

definition main :: "env \<Rightarrow> args \<Rightarrow> outcome" where
  "main ev a =
     (if rank a < 10
      then Exited (''Factorization rank must be at least 10! Exiting.'' @ [CHR 0x0A]) 1
      else (case factorize ev a of
              Inl e \<Rightarrow> Raised e
            | Inr arc \<Rightarrow> Saved (output_path a) arc))"

section \<open>The contract of the solver\<close>

text \<open>
  Modelled from the spec: \<open>nnlsm_blockpivot\<close> (\<open>external/nnls.py\<close>) is not among the
  sources. The specification says that the projector "returns a non-negative matrix
  (k x many columns)": one coefficient column per target column, one entry per anchor
  column.
\<close>

definition returns_shape :: "solver \<Rightarrow> bool" where
  "returns_shape solve \<longleftrightarrow>
     (\<forall>A B. length (solve A B) = length B \<and> list_all (\<lambda>c. length c = length A) (solve A B))"

text \<open>
  Modelled from the spec: \<open>nnlsm_blockpivot\<close> (\<open>external/nnls.py\<close>) is not among the
  sources. The specification says that every entry of what it returns is non-negative
  (the solution is subject to \<open>h \<ge> 0\<close>).
\<close>

definition nonneg_solver :: "solver \<Rightarrow> bool" where
  "nonneg_solver solve \<longleftrightarrow> (\<forall>A B. list_all (list_all (\<lambda>v. 0 \<le> v)) (solve A B))"

text \<open>
  Modelled from the spec: \<open>nnlsm_blockpivot\<close> (\<open>external/nnls.py\<close>) is not among the
  sources. The specification says that the minimisation is done "per target column
  independently": the solution of a column is the one the solver gives for the anchors
  and that column alone.
\<close>

definition columnwise :: "solver \<Rightarrow> bool" where
  "columnwise solve \<longleftrightarrow> (\<forall>A B. solve A B = concat (map (\<lambda>b. solve A [b]) B))"

section \<open>Data for the examples\<close>

text \<open>
  A solver to run the model on concrete data: it projects every target column on the
  first anchor column that is not zero and gives the other anchors the coefficient 0.
  It returns a non-negative matrix of the right shape, column by column; where all
  columns are non-negative multiples of one image, as in the examples below, what it
  returns is a non-negative least squares solution (the residual is zero).
\<close>

fun project_on :: "matrix \<Rightarrow> real list \<Rightarrow> real list" where
  "project_on [] b = []"
| "project_on (a # as) b =
     (if dot a a = 0 then 0 # project_on as b
      else max 0 (dot a b / dot a a) # replicate (length as) 0)"

definition project_first :: solver where
  "project_first A B = map (project_on A) B"

text \<open>A random source whose draws are all \<open>1/2\<close>.\<close>

definition probe_half :: "nat \<Rightarrow> nat \<Rightarrow> real" where
  "probe_half i j = 1 / 2"

text \<open>
  A store of images of one row and two pixels: the bin at mass \<open>mz\<close> has intensity
  \<open>mz - 100\<close> at the first pixel and none at the second. With the axis generator
  below the run has the eleven bins at the masses 100, 101, ..., 110.
\<close>

definition store_line :: imzb where
  "store_line =
     \<lparr>min_mz = 100, max_mz = 110, height = 1, width = 2,
      get_mz_image = (\<lambda>mz ppm. [mz - 100, 0])\<rparr>"

definition axis_unit :: "real \<Rightarrow> real \<Rightarrow> args \<Rightarrow> (real \<times> real) list" where
  "axis_unit lo hi a = map (\<lambda>i. (real_of_int (\<lceil>lo\<rceil> + int i), 1)) [0..<nat (\<lfloor>hi\<rfloor> - \<lceil>lo\<rceil> + 1)]"

definition env_line :: env where
  "env_line =
     \<lparr>ImzbReader = (\<lambda>path. store_line), generate_mz_axis = axis_unit,
      nnlsm_blockpivot = project_first, random_draw = probe_half\<rparr>"

definition args_rank :: "int \<Rightarrow> args" where
  "args_rank r =
     \<lparr>input_path = ''data.imzb'', output_path = ''nmf.npz'', instrument = ''orbitrap'',
      res200 = 140000, rank = r\<rparr>"

text \<open>The values of that run with rank 10: the axis, the cleaned images \<open>arr\<close>, the
  working matrix \<open>x\<close> (brightest image first), the basis and the coefficients.\<close>

definition line_axis :: "(real \<times> real) list" where
  "line_axis =
     [(100, 1), (101, 1), (102, 1), (103, 1), (104, 1), (105, 1), (106, 1), (107, 1),
      (108, 1), (109, 1), (110, 1)]"

definition line_arr :: matrix where
  "line_arr =
     [[0, 0], [99 / 100, 0], [99 / 50, 0], [297 / 100, 0], [99 / 25, 0], [99 / 20, 0],
      [297 / 50, 0], [693 / 100, 0], [198 / 25, 0], [891 / 100, 0], [99 / 10, 0]]"

definition line_x :: matrix where
  "line_x =
     [[99 / 10, 0], [891 / 100, 0], [198 / 25, 0], [693 / 100, 0], [297 / 50, 0],
      [99 / 20, 0], [99 / 25, 0], [297 / 100, 0], [99 / 50, 0], [99 / 100, 0], [0, 0]]"

definition line_cols :: "nat list" where
  "line_cols = [10, 0, 1, 2, 3, 4, 5, 6, 7, 8]"

definition line_W :: matrix where
  "line_W =
     [[0, 0], [99 / 10, 0], [891 / 100, 0], [198 / 25, 0], [693 / 100, 0], [297 / 50, 0],
      [99 / 20, 0], [99 / 25, 0], [297 / 100, 0], [99 / 50, 0]]"

definition line_H :: matrix where
  "line_H =
     [[0, 0, 0, 0, 0, 0, 0, 0, 0, 0], [0, 1 / 10, 0, 0, 0, 0, 0, 0, 0, 0],
      [0, 1 / 5, 0, 0, 0, 0, 0, 0, 0, 0], [0, 3 / 10, 0, 0, 0, 0, 0, 0, 0, 0],
      [0, 2 / 5, 0, 0, 0, 0, 0, 0, 0, 0], [0, 1 / 2, 0, 0, 0, 0, 0, 0, 0, 0],
      [0, 3 / 5, 0, 0, 0, 0, 0, 0, 0, 0], [0, 7 / 10, 0, 0, 0, 0, 0, 0, 0, 0],
      [0, 4 / 5, 0, 0, 0, 0, 0, 0, 0, 0], [0, 9 / 10, 0, 0, 0, 0, 0, 0, 0, 0],
      [0, 1, 0, 0, 0, 0, 0, 0, 0, 0]]"

text \<open>
  Two smaller stores of the same kind: one whose axis has the three bins at the masses
  101, 102 and 103 (images \<open>[1, 0]\<close>, \<open>[2, 0]\<close>, \<open>[3, 0]\<close>), and one whose axis has
  the single bin at the mass 105 (image \<open>[5, 0]\<close>).
\<close>

definition store_three :: imzb where
  "store_three =
     \<lparr>min_mz = 101, max_mz = 103, height = 1, width = 2,
      get_mz_image = (\<lambda>mz ppm. [mz - 100, 0])\<rparr>"

definition env_three :: env where
  "env_three =
     \<lparr>ImzbReader = (\<lambda>path. store_three), generate_mz_axis = axis_unit,
      nnlsm_blockpivot = project_first, random_draw = probe_half\<rparr>"

definition store_one :: imzb where
  "store_one =
     \<lparr>min_mz = 105, max_mz = 105, height = 1, width = 2,
      get_mz_image = (\<lambda>mz ppm. [mz - 100, 0])\<rparr>"

definition env_one :: env where
  "env_one =
     \<lparr>ImzbReader = (\<lambda>path. store_one), generate_mz_axis = axis_unit,
      nnlsm_blockpivot = project_first, random_draw = probe_half\<rparr>"

text \<open>
  A store for the noise statistics: two pixels, the first pixel never positive. The
  intensities of the bin \<open>(mz, ppm)\<close> are \<open>ppm\<close> and \<open>mz\<close>.
\<close>

definition store_pair :: imzb where
  "store_pair =
     \<lparr>min_mz = 50, max_mz = 100, height = 1, width = 2,
      get_mz_image = (\<lambda>mz ppm. [ppm, mz])\<rparr>"

section \<open>Properties of the column selection\<close>

lemma length_exclude [simp]: "length (exclude cols s) = length s"
  unfolding exclude_def by (induction cols arbitrary: s) auto

lemma exclude_nth_out: "c \<notin> set cols \<Longrightarrow> exclude cols s ! c = s ! c"
  unfolding exclude_def by (induction cols arbitrary: s) auto

lemma exclude_nth_in: "c \<in> set cols \<Longrightarrow> c < length s \<Longrightarrow> exclude cols s ! c = Fin (- 1)"
  unfolding exclude_def
proof (induction cols arbitrary: s)
  case Nil
  then show ?case by simp
next
  case (Cons a cols)
  show ?case
  proof (cases "c \<in> set cols")
    case True
    then show ?thesis using Cons by simp
  next
    case False
    then have "c = a" using Cons.prems by simp
    have "fold (\<lambda>c s. s[c := Fin (- 1)]) cols (s[a := Fin (- 1)]) ! c = (s[a := Fin (- 1)]) ! c"
      using exclude_nth_out [OF False, of "s[a := Fin (- 1)]"] by (simp add: exclude_def)
    then show ?thesis using \<open>c = a\<close> Cons.prems by simp
  qed
qed

lemma fle_NaN_right [simp]: "fle v NaN = False"
  by (cases v) auto


lemma fle_trans: "fle a b \<Longrightarrow> fle b c \<Longrightarrow> fle a c"
  by (cases a; cases b; cases c) auto

lemma fle_total: "a \<noteq> NaN \<Longrightarrow> b \<noteq> NaN \<Longrightarrow> fle a b \<or> fle b a"
  by (cases a; cases b) auto

lemma fle_refl: "a \<noteq> NaN \<Longrightarrow> fle a a"
  by (cases a) auto

lemma argmax_loop_spec:
  assumes "m < length pre" "pre ! m = mp" "mp \<noteq> NaN" "\<forall>j<length pre. fle (pre ! j) mp"
  shows "argmax_loop vs (length pre) mp m < length (pre @ vs) \<and>
         ((pre @ vs) ! argmax_loop vs (length pre) mp m = NaN \<or>
          (\<forall>j<length (pre @ vs). fle ((pre @ vs) ! j) ((pre @ vs) ! argmax_loop vs (length pre) mp m)))"
  using assms
proof (induction vs arbitrary: pre mp m)
  case Nil
  then show ?case by simp
next
  case (Cons v vs)
  show ?case
  proof (cases "fle v mp")
    case True
    have a: "\<forall>j<length (pre @ [v]). fle ((pre @ [v]) ! j) mp"
      using Cons.prems True by (auto simp: nth_append less_Suc_eq)
    have "m < length (pre @ [v])" "(pre @ [v]) ! m = mp"
      using Cons.prems by (auto simp: nth_append)
    from Cons.IH [OF this Cons.prems(3) a] True show ?thesis by simp
  next
    case False
    show ?thesis
    proof (cases "v = NaN")
      case True
      then show ?thesis using False by simp
    next
      case nn: False
      have lt: "fle mp v" using fle_total [OF nn Cons.prems(3)] False by simp
      have a: "\<forall>j<length (pre @ [v]). fle ((pre @ [v]) ! j) v"
        using Cons.prems lt fle_refl [OF nn] by (auto simp: nth_append less_Suc_eq intro: fle_trans)
      have "length pre < length (pre @ [v])" "(pre @ [v]) ! length pre = v" by auto
      from Cons.IH [OF this nn a] False nn show ?thesis by simp
    qed
  qed
qed

lemma argmax_spec:
  assumes "argmax a = Inr b"
  shows "b < length a \<and> (a ! b = NaN \<or> (\<forall>j<length a. fle (a ! j) (a ! b)))"
proof (cases a)
  case Nil
  then show ?thesis using assms by (simp add: argmax_def)
next
  case (Cons v vs)
  show ?thesis
  proof (cases "v = NaN")
    case True
    then show ?thesis using assms Cons by (simp add: argmax_def)
  next
    case False
    have "0 < length [v]" "[v] ! 0 = v" "\<forall>j<length [v]. fle ([v] ! j) v"
      using fle_refl [OF False] by auto
    from argmax_loop_spec [OF this(1,2) False this(3), of vs]
    show ?thesis using assms Cons False by (simp add: argmax_def)
  qed
qed

lemma argmax_empty: "argmax a = Inl e \<Longrightarrow> a = [] \<and> e = ValueError"
  by (auto simp: argmax_def split: list.splits if_splits)


lemma length_scores_of [simp]: "length (scores_of R x p) = min (length R) (length x)"
  by (simp add: scores_of_def)

lemma xray_loop_inv:
  assumes "xray_loop solve rnd n x r cols R = Inr (cols', R')"
    and "distinct cols" and "\<forall>c\<in>set cols. c < length x" and "int (length cols) \<le> r"
  shows "distinct cols' \<and> (\<forall>c\<in>set cols'. c < length x) \<and> int (length cols') = r \<and>
         (\<exists>new. cols' = cols @ new)"
  using assms
proof (induction solve rnd n x r cols R rule: xray_loop.induct)
  case (1 solve rnd nrows x r cols R)
  show ?case
  proof (cases "int (length cols) < r")
    case False
    then show ?thesis using "1.prems" by (simp add: xray_loop.simps)
  next
    case True
    define scores where "scores = exclude cols (scores_of R x (map (rnd (length cols)) [0..<nrows]))"
    from "1.prems"(1) True obtain best_col where am: "argmax scores = Inr best_col"
      by (simp add: xray_loop.simps [of solve rnd nrows x r cols R] scores_def Let_def split: sum.splits)
    from "1.prems"(1) True am have fresh: "best_col \<notin> set cols"
      by (simp add: xray_loop.simps [of solve rnd nrows x r cols R] scores_def Let_def split: if_splits)
    from "1.prems"(1) True am fresh obtain H where
      H: "nnls_frob solve x (columns x (cols @ [best_col])) = Inr H"
      by (simp add: xray_loop.simps [of solve rnd nrows x r cols R] scores_def Let_def split: sum.splits)
    from "1.prems"(1) True am fresh H have rec:
      "xray_loop solve rnd nrows x r (cols @ [best_col])
         (residual nrows x (columns x (cols @ [best_col])) H) = Inr (cols', R')"
      by (simp add: xray_loop.simps [of solve rnd nrows x r cols R] scores_def Let_def)
    have bound: "best_col < length x"
      using argmax_spec [OF am] by (simp add: scores_def)
    have d: "distinct (cols @ [best_col])" using "1.prems"(2) fresh by simp
    have b: "\<forall>c\<in>set (cols @ [best_col]). c < length x" using "1.prems"(3) bound by simp
    have l: "int (length (cols @ [best_col])) \<le> r" using True by simp
    have "distinct cols' \<and> (\<forall>c\<in>set cols'. c < length x) \<and> int (length cols') = r \<and>
         (\<exists>new. cols' = (cols @ [best_col]) @ new)"
      by (rule "1.IH" [OF True refl refl refl am [unfolded scores_def] fresh H rec d b l])
    then show ?thesis by auto
  qed
qed


lemma fold_update_range:
  "length sol = b - a \<Longrightarrow> a \<le> b \<Longrightarrow> b \<le> length res \<Longrightarrow>
   fold (\<lambda>(j, c) r. r[j := c]) (zip [a..<b] sol) res = take a res @ sol @ drop b res"
proof (induction sol arbitrary: a res)
  case Nil
  then show ?case by simp
next
  case (Cons s ss)
  then have ab: "a < b" by simp
  then have up: "[a..<b] = a # [Suc a..<b]" by (simp add: upt_conv_Cons)
  have "fold (\<lambda>(j, c) r. r[j := c]) (zip [Suc a..<b] ss) (res[a := s]) =
        take (Suc a) (res[a := s]) @ ss @ drop b (res[a := s])"
    using Cons.prems ab by (intro Cons.IH) auto
  also have "take (Suc a) (res[a := s]) = take a res @ [s]"
    using Cons.prems ab by (simp add: take_Suc_conv_app_nth)
  also have "drop b (res[a := s]) = drop b res"
    using ab by simp
  finally show ?case by (simp add: up)
qed

lemma partition_all_upt:
  "0 < m \<Longrightarrow> a < n \<Longrightarrow>
   partition_all m [a..<n] = [a..<min n (a + m)] # partition_all m [min n (a + m)..<n]"
proof -
  assume m: "0 < m" and an: "a < n"
  have t: "take m [a..<n] = [a..<min n (a + m)]"
    by (cases "a + m \<le> n") (simp_all add: min_def)
  have d: "drop m [a..<n] = [min n (a + m)..<n]"
    by (cases "a + m \<le> n") (simp_all add: min_def add.commute)
  show ?thesis
    using m an by (subst partition_all.simps) (auto simp add: t min_def)
qed


lemma nnls_chunks_result:
  assumes "0 < m" "length result = n" "a \<le> n"
    and "nnls_chunks solve x A (partition_all m [a..<n]) result = Inr H"
  shows "H = take a result @ concat (map (\<lambda>chunk. solve A (columns x chunk)) (partition_all m [a..<n]))
         \<and> length H = n"
  using assms(2-)
proof (induction "n - a" arbitrary: a result rule: less_induct)
  case less
  show ?case
  proof (cases "a < n")
    case False
    then have "partition_all m [a..<n] = []" by (simp add: partition_all.simps)
    then show ?thesis using less.prems False by simp
  next
    case True
    define b where "b = min n (a + m)"
    define sol where "sol = solve A (columns x [a..<b])"
    have pa: "partition_all m [a..<n] = [a..<b] # partition_all m [b..<n]"
      unfolding b_def by (rule partition_all_upt [OF assms(1) True])
    have ab: "a < b" "b \<le> n" using True assms(1) by (auto simp: b_def)
    from less.prems(3) obtain res' where
      as: "assign_columns result (length A) [a..<b] sol = Inr res'" and
      rest: "nnls_chunks solve x A (partition_all m [b..<n]) res' = Inr H"
      by (auto simp: pa sol_def Let_def split: sum.splits)
    from as have len: "length sol = b - a"
      by (auto simp: assign_columns_def split: if_splits)
    from as have res': "res' = take a result @ sol @ drop b result"
      using fold_update_range [of sol b a result] len ab less.prems(1)
      by (auto simp: assign_columns_def split: if_splits)
    have lr: "length res' = n" using res' len ab less.prems(1) by simp
    have ih: "H = take b res' @ concat (map (\<lambda>chunk. solve A (columns x chunk)) (partition_all m [b..<n]))
          \<and> length H = n"
      using ab True by (intro less.hyps [OF _ lr _ rest]) auto
    have tk: "take b res' = take a result @ sol"
      using res' len ab less.prems(1) by simp
    have "H = take a result @ concat (map (\<lambda>chunk. solve A (columns x chunk)) (partition_all m [a..<n]))"
      using conjunct1 [OF ih] tk by (simp add: pa sol_def)
    then show ?thesis using conjunct2 [OF ih] by blast
  qed
qed

lemma nnls_chunks_succeeds:
  assumes "0 < m" "length result = n" "a \<le> n" "returns_shape solve"
  shows "\<exists>H. nnls_chunks solve x A (partition_all m [a..<n]) result = Inr H"
  using assms(2,3)
proof (induction "n - a" arbitrary: a result rule: less_induct)
  case less
  show ?case
  proof (cases "a < n")
    case False
    then have "partition_all m [a..<n] = []" by (simp add: partition_all.simps)
    then show ?thesis by simp
  next
    case True
    define b where "b = min n (a + m)"
    define sol where "sol = solve A (columns x [a..<b])"
    have pa: "partition_all m [a..<n] = [a..<b] # partition_all m [b..<n]"
      unfolding b_def by (rule partition_all_upt [OF assms(1) True])
    have ab: "a < b" "b \<le> n" using True assms(1) by (auto simp: b_def)
    have len: "length sol = b - a" and sh: "list_all (\<lambda>c. length c = length A) sol"
      using assms(4) by (auto simp: returns_shape_def sol_def columns_def)
    define res' where "res' = fold (\<lambda>(j, c) r. r[j := c]) (zip [a..<b] sol) result"
    have as: "assign_columns result (length A) [a..<b] sol = Inr res'"
      using len sh by (simp add: assign_columns_def res'_def)
    have "res' = take a result @ sol @ drop b result"
      unfolding res'_def using fold_update_range [of sol b a result] len ab less.prems(1) by simp
    then have lr: "length res' = n" using len ab less.prems(1) by simp
    have "\<exists>H. nnls_chunks solve x A (partition_all m [b..<n]) res' = Inr H"
      using ab True by (intro less.hyps [OF _ lr]) auto
    then show ?thesis using as by (simp add: pa sol_def [symmetric])
  qed
qed

lemma nnls_frob_result:
  assumes "nnls_frob solve x A = Inr H"
  shows "H = concat (map (\<lambda>chunk. solve A (columns x chunk)) (partition_all 100 [0..<length x]))"
    and "length H = length x"
proof -
  have c: "nnls_chunks solve x A (partition_all 100 [0..<length x])
             (replicate (length x) (replicate (length A) 0)) = Inr H"
    using assms by (simp add: nnls_frob_def Let_def)
  have r: "H = take 0 (replicate (length x) (replicate (length A) 0)) @
             concat (map (\<lambda>chunk. solve A (columns x chunk)) (partition_all 100 [0..<length x]))
           \<and> length H = length x"
    by (rule nnls_chunks_result [OF _ _ _ c]) simp_all
  show "H = concat (map (\<lambda>chunk. solve A (columns x chunk)) (partition_all 100 [0..<length x]))"
    using conjunct1 [OF r] by simp
  show "length H = length x"
    using conjunct2 [OF r] .
qed

lemma nnls_frob_succeeds:
  "returns_shape solve \<Longrightarrow> \<exists>H. nnls_frob solve x A = Inr H"
  using nnls_chunks_succeeds [of 100 "replicate (length x) (replicate (length A) 0)" "length x" 0 solve x A]
  by (simp add: nnls_frob_def Let_def)

lemma concat_partition_all: "0 < m \<Longrightarrow> concat (partition_all m xs) = xs"
proof (induction m xs rule: partition_all.induct)
  case (1 n xs)
  then show ?case by (subst partition_all.simps) auto
qed

lemma columns_upt: "columns x [0..<length x] = x"
  by (simp add: columns_def map_nth)

lemma columns_concat: "concat (map (columns x) cs) = columns x (concat cs)"
  by (induction cs) (simp_all add: columns_def)


lemma concat_map_concat: "concat (map (\<lambda>c. concat (map f c)) cs) = concat (map f (concat cs))"
  by (induction cs) simp_all

lemma nnls_frob_single_call:
  assumes "returns_shape solve" "columnwise solve"
  shows "nnls_frob solve x A = Inr (solve A x)"
proof -
  from nnls_frob_succeeds [OF assms(1)] obtain H where H: "nnls_frob solve x A = Inr H" by blast
  let ?cs = "partition_all 100 [0..<length x]"
  have cw: "\<And>B. solve A B = concat (map (\<lambda>b. solve A [b]) B)"
    using assms(2) unfolding columnwise_def by blast
  have "H = concat (map (\<lambda>chunk. solve A (columns x chunk)) ?cs)"
    by (rule nnls_frob_result(1) [OF H])
  also have "\<dots> = concat (map (\<lambda>chunk. concat (map (\<lambda>b. solve A [b]) (columns x chunk))) ?cs)"
    using cw by metis
  also have "\<dots> = concat (map (\<lambda>c. concat (map (\<lambda>j. solve A [x ! j]) c)) ?cs)"
    by (simp add: columns_def comp_def)
  also have "\<dots> = concat (map (\<lambda>j. solve A [x ! j]) (concat ?cs))"
    by (rule concat_map_concat)
  also have "\<dots> = concat (map (\<lambda>b. solve A [b]) (map (\<lambda>j. x ! j) [0..<length x]))"
    by (simp add: concat_partition_all comp_def)
  also have "\<dots> = solve A x"
    using cw [of x] by (simp add: map_nth)
  finally show ?thesis using H by simp
qed

lemma length_residual [simp]: "length (residual n x xs H) = min (length x) (length H)"
  by (simp add: residual_def)

lemma xray_loop_outcome:
  assumes "returns_shape solve" "x \<noteq> []" "length R = length x"
  shows "(\<exists>res. xray_loop solve rnd n x r cols R = Inr res) \<or>
         xray_loop solve rnd n x r cols R = Inl AssertionError"
  using assms
proof (induction solve rnd n x r cols R rule: xray_loop.induct)
  case (1 solve rnd nrows x r cols R)
  show ?case
  proof (cases "int (length cols) < r")
    case False
    then show ?thesis by (simp add: xray_loop.simps)
  next
    case True
    define scores where "scores = exclude cols (scores_of R x (map (rnd (length cols)) [0..<nrows]))"
    have "length scores = length x" using "1.prems"(3) by (simp add: scores_def)
    then have "scores \<noteq> []" using "1.prems"(2) by auto
    then have "\<exists>best_col. argmax scores = Inr best_col"
      by (cases scores) (simp_all add: argmax_def)
    then obtain best_col where am: "argmax scores = Inr best_col" by blast
    show ?thesis
    proof (cases "best_col \<in> set cols")
      case bc: True
      have "xray_loop solve rnd nrows x r cols R = Inl AssertionError"
        using True am bc
        by (simp add: xray_loop.simps [of solve rnd nrows x r cols R] scores_def Let_def)
      then show ?thesis by simp
    next
      case bc: False
      from nnls_frob_succeeds [OF "1.prems"(1)] obtain H where
        H: "nnls_frob solve x (columns x (cols @ [best_col])) = Inr H" by blast
      have lr: "length (residual nrows x (columns x (cols @ [best_col])) H) = length x"
        using nnls_frob_result(2) [OF H] by simp
      have step: "xray_loop solve rnd nrows x r cols R =
                  xray_loop solve rnd nrows x r (cols @ [best_col])
                    (residual nrows x (columns x (cols @ [best_col])) H)"
        using True am bc H
        by (simp add: xray_loop.simps [of solve rnd nrows x r cols R] scores_def Let_def)
      show ?thesis
        unfolding step
        by (rule "1.IH" [OF True refl refl refl am [unfolded scores_def] bc H "1.prems"(1,2) lr])
    qed
  qed
qed

lemma distinct_bounded_length:
  assumes "distinct cols" "\<forall>c\<in>set cols. c < n"
  shows "length cols \<le> n"
proof -
  have "card (set cols) \<le> card {..<n}"
    using assms(2) by (intro card_mono) auto
  then show ?thesis using distinct_card [OF assms(1)] by simp
qed


lemma xray_loop_extends:
  assumes "xray_loop solve rnd n x r cols R = Inr (sel, R')" and "int (length cols) \<le> r"
  shows "\<exists>new. sel = cols @ new \<and> int (length new) = r - int (length cols)"
  using assms
proof (induction solve rnd n x r cols R rule: xray_loop.induct)
  case (1 solve rnd nrows x r cols R)
  show ?case
  proof (cases "int (length cols) < r")
    case False
    then show ?thesis using "1.prems" by (simp add: xray_loop.simps)
  next
    case True
    define scores where "scores = exclude cols (scores_of R x (map (rnd (length cols)) [0..<nrows]))"
    from "1.prems"(1) True obtain best_col where am: "argmax scores = Inr best_col"
      by (simp add: xray_loop.simps [of solve rnd nrows x r cols R] scores_def Let_def split: sum.splits)
    from "1.prems"(1) True am have fresh: "best_col \<notin> set cols"
      by (simp add: xray_loop.simps [of solve rnd nrows x r cols R] scores_def Let_def split: if_splits)
    from "1.prems"(1) True am fresh obtain H where
      H: "nnls_frob solve x (columns x (cols @ [best_col])) = Inr H"
      by (simp add: xray_loop.simps [of solve rnd nrows x r cols R] scores_def Let_def split: sum.splits)
    from "1.prems"(1) True am fresh H have rec:
      "xray_loop solve rnd nrows x r (cols @ [best_col])
         (residual nrows x (columns x (cols @ [best_col])) H) = Inr (sel, R')"
      by (simp add: xray_loop.simps [of solve rnd nrows x r cols R] scores_def Let_def)
    have l: "int (length (cols @ [best_col])) \<le> r" using True by simp
    from "1.IH" [OF True refl refl refl am [unfolded scores_def] fresh H rec l]
    obtain new where "sel = (cols @ [best_col]) @ new"
      "int (length new) = r - int (length (cols @ [best_col]))" by blast
    then have "sel = cols @ (best_col # new) \<and> int (length (best_col # new)) = r - int (length cols)"
      by simp
    then show ?thesis by blast
  qed
qed

lemma length_project_on [simp]: "length (project_on A b) = length A"
  by (induction A) simp_all

lemma project_on_nonneg: "list_all (\<lambda>v. 0 \<le> v) (project_on A b)"
  by (induction A) (simp_all add: list_all_iff)

lemma project_first_shape: "returns_shape project_first"
  by (simp add: returns_shape_def project_first_def list_all_iff)

lemma project_first_columnwise: "columnwise project_first"
  unfolding columnwise_def project_first_def
proof (intro allI)
  fix A B
  show "map (project_on A) B = concat (map (\<lambda>b. map (project_on A) [b]) B)"
    by (induction B) simp_all
qed

lemma project_first_nonneg: "nonneg_solver project_first"
  by (simp add: nonneg_solver_def project_first_def list_all_iff project_on_nonneg [unfolded list_all_iff])

text \<open>
  What the exclusion gives. Before the \<open>argmax\<close> the score of every selected column is
  \<open>-1\<close>, so the pick is a new column whenever some column that is not selected yet has
  a score that is \<open>nan\<close> or above \<open>-1\<close>. A loop that returns (for a rank that is not
  negative) returns as many columns as the rank says, pairwise distinct, each a column
  of \<open>x\<close>. Nothing compares the rank with the number of columns: with a solver that
  returns matrices of the right shape and a rank above the number of columns of a
  non-empty \<open>x\<close>, every column is selected at some point, the next \<open>argmax\<close> falls
  on a selected column and the assertion of line 104 fails.
\<close>

lemma selection_facts:
  "(\<forall>c\<in>set cols. c < length scores \<longrightarrow> exclude cols scores ! c = Fin (- 1)) \<and>
   (argmax (exclude cols scores) = Inr best_col \<and>
      (\<exists>j<length scores. j \<notin> set cols \<and> \<not> fle (scores ! j) (Fin (- 1)))
      \<longrightarrow> best_col \<notin> set cols) \<and>
   (0 \<le> r \<and> xray_loop solve rnd n x r [] x = Inr (sel, R)
      \<longrightarrow> int (length sel) = r \<and> distinct sel \<and> (\<forall>c\<in>set sel. c < length x)) \<and>
   (returns_shape solve \<and> x \<noteq> [] \<and> int (length x) < r
      \<longrightarrow> xray_loop solve rnd n x r [] x = Inl AssertionError)"
proof (intro conjI impI ballI)
  fix c assume "c \<in> set cols" "c < length scores"
  then show "exclude cols scores ! c = Fin (- 1)" by (rule exclude_nth_in)
next
  assume a: "argmax (exclude cols scores) = Inr best_col \<and>
      (\<exists>j<length scores. j \<notin> set cols \<and> \<not> fle (scores ! j) (Fin (- 1)))"
  then obtain j where j: "j < length scores" "j \<notin> set cols" "\<not> fle (scores ! j) (Fin (- 1))"
    by blast
  from a argmax_spec [of "exclude cols scores" best_col]
  have b: "best_col < length scores"
    and m: "exclude cols scores ! best_col = NaN \<or>
            (\<forall>i<length scores. fle (exclude cols scores ! i) (exclude cols scores ! best_col))"
    by simp_all
  show "best_col \<notin> set cols"
  proof
    assume "best_col \<in> set cols"
    then have e: "exclude cols scores ! best_col = Fin (- 1)" using b by (rule exclude_nth_in)
    with m j(1) have "fle (exclude cols scores ! j) (Fin (- 1))" by auto
    then show False using j(2,3) by (simp add: exclude_nth_out)
  qed
next
  assume a: "0 \<le> r \<and> xray_loop solve rnd n x r [] x = Inr (sel, R)"
  then have inv: "distinct sel \<and> (\<forall>c\<in>set sel. c < length x) \<and> int (length sel) = r \<and>
         (\<exists>new. sel = [] @ new)"
    by (intro xray_loop_inv [of solve rnd n x r "[]" x sel R]) auto
  show "int (length sel) = r" using inv by blast
  show "distinct sel" using inv by blast
  fix c assume "c \<in> set sel" then show "c < length x" using inv by blast
next
  assume a: "returns_shape solve \<and> x \<noteq> [] \<and> int (length x) < r"
  show "xray_loop solve rnd n x r [] x = Inl AssertionError"
  proof (rule ccontr)
    assume "xray_loop solve rnd n x r [] x \<noteq> Inl AssertionError"
    with xray_loop_outcome [of solve x x rnd n r "[]"] a
    obtain sel R where run: "xray_loop solve rnd n x r [] x = Inr (sel, R)" by auto
    have inv: "distinct sel \<and> (\<forall>c\<in>set sel. c < length x) \<and> int (length sel) = r \<and>
         (\<exists>new. sel = [] @ new)"
      using a by (intro xray_loop_inv [OF run]) auto
    then have "length sel \<le> length x" by (intro distinct_bounded_length) auto
    then show False using inv a by simp
  qed
qed

lemma partition_all_pieces:
  "0 < m \<Longrightarrow> list_all (\<lambda>chunk. chunk \<noteq> [] \<and> length chunk \<le> m) (partition_all m xs)"
proof (induction m xs rule: partition_all.induct)
  case (1 n xs)
  then show ?case by (subst partition_all.simps) auto
qed

section \<open>Properties of the projection\<close>

text \<open>
  Claim C8. \<open>nnls_frob\<close> cuts the column positions of the target into consecutive
  pieces of at most 100, none empty, and its result is the solutions of the pieces
  side by side, each at the columns of its piece. With a solver that keeps its contract
  (a matrix of the right shape, each column solved on its own) the result is what one
  call of the solver on all columns gives. The numbers of the model are exact, so
  "up to solver tolerance" reads as equality.
\<close>

theorem nnls_frob_batches:
  "list_all (\<lambda>chunk. chunk \<noteq> [] \<and> length chunk \<le> 100) (partition_all 100 [0..<length x]) \<and>
   concat (partition_all 100 [0..<length x]) = [0..<length x] \<and>
   (nnls_frob solve x A = Inr H
      \<longrightarrow> H = concat (map (\<lambda>chunk. solve A (columns x chunk)) (partition_all 100 [0..<length x]))) \<and>
   (returns_shape solve \<and> columnwise solve \<longrightarrow> nnls_frob solve x A = Inr (solve A x))"
proof (intro conjI impI)
  show "list_all (\<lambda>chunk. chunk \<noteq> [] \<and> length chunk \<le> 100) (partition_all 100 [0..<length x])"
    by (rule partition_all_pieces) simp
  show "concat (partition_all 100 [0..<length x]) = [0..<length x]"
    by (rule concat_partition_all) simp
next
  assume "nnls_frob solve x A = Inr H"
  then show "H = concat (map (\<lambda>chunk. solve A (columns x chunk)) (partition_all 100 [0..<length x]))"
    by (rule nnls_frob_result(1))
next
  assume "returns_shape solve \<and> columnwise solve"
  then show "nnls_frob solve x A = Inr (solve A x)"
    using nnls_frob_single_call by blast
qed

theorem nnls_frob_batches_witness:
  "nnls_frob project_first [[4], [2], [0]] [[2]] = Inr [[2], [1], [0]] \<and>
   nnls_frob project_first (map (\<lambda>i. [real i]) [0..<250]) [[2]]
     = Inr (project_first [[2]] (map (\<lambda>i. [real i]) [0..<250])) \<and>
   project_first [[2]] (map (\<lambda>i. [real i]) [0..<250])
     = concat (map (\<lambda>chunk. project_first [[2]] (columns (map (\<lambda>i. [real i]) [0..<250]) chunk))
          (partition_all 100 [0..<length (map (\<lambda>i. [real i]) [0..<250])]))"
proof -
  have c: "returns_shape project_first \<and> columnwise project_first"
    using project_first_shape project_first_columnwise by blast
  have v: "project_first [[2]] [[4], [2], [0]] = [[2], [1], [0]]"
    by (simp add: project_first_def dot_def)
  have one: "nnls_frob project_first [[4], [2], [0]] [[2]] = Inr [[2], [1], [0]]"
    using nnls_frob_batches [of "[[4], [2], [0]]" project_first "[[2]]"] c v by simp
  have two: "nnls_frob project_first (map (\<lambda>i. [real i]) [0..<250]) [[2]]
     = Inr (project_first [[2]] (map (\<lambda>i. [real i]) [0..<250]))"
    using nnls_frob_batches [of "map (\<lambda>i. [real i]) [0..<250]" project_first "[[2]]"] c by blast
  have three: "project_first [[2]] (map (\<lambda>i. [real i]) [0..<250])
     = concat (map (\<lambda>chunk. project_first [[2]] (columns (map (\<lambda>i. [real i]) [0..<250]) chunk))
          (partition_all 100 [0..<length (map (\<lambda>i. [real i]) [0..<250])]))"
    using nnls_frob_batches [of "map (\<lambda>i. [real i]) [0..<250]" project_first "[[2]]"
        "project_first [[2]] (map (\<lambda>i. [real i]) [0..<250])"] two by blast
  show ?thesis using one two three by blast
qed

section \<open>The stages of a run\<close>

lemma factorize_stages:
  assumes "rd = ImzbReader ev (input_path a)"
    and "0 < min_mz rd - 0.1" and "1 < max_mz rd + 0.1"
    and "axis = generate_mz_axis ev (min_mz rd - 0.1) (max_mz rd + 0.1) a"
    and "compute_arr rd (partition_all K axis) = Inr arr"
    and "x = columns arr (take N_bright (rev (argsort (map sum_list arr))))"
    and "xray_loop (nnlsm_blockpivot ev) (random_draw ev) (height rd * width rd) x (rank a) [] x
           = Inr (cols, R)"
    and "nnls_frob (nnlsm_blockpivot ev) arr (columns x cols) = Inr H"
    and "noise_statistics rd (columns x cols) H axis = Inr st"
  shows "factorize ev a =
         Inr \<lparr>arc_W = columns x cols, arc_H = H, arc_mz_axis = axis,
              arc_shape = (height rd, width rd), arc_noise_prob = prob st,
              arc_noise_sqrt_avg = sqrt_median st, arc_noise_sqrt_std = sqrt_std st,
              arc_min_intensities = min_intensities st\<rparr>"
  using assms(2,3,5,7,8,9)
  unfolding factorize_def Let_def assms(1) assms(4) assms(6)
  by simp

lemma factorize_Inr:
  assumes "factorize ev a = Inr arc"
  defines "rd \<equiv> ImzbReader ev (input_path a)"
  defines "axis \<equiv> generate_mz_axis ev (min_mz rd - 0.1) (max_mz rd + 0.1) a"
  shows "\<exists>arr cols R st.
           compute_arr rd (partition_all K axis) = Inr arr \<and>
           xray_loop (nnlsm_blockpivot ev) (random_draw ev) (height rd * width rd)
             (columns arr (take N_bright (rev (argsort (map sum_list arr))))) (rank a) []
             (columns arr (take N_bright (rev (argsort (map sum_list arr))))) = Inr (cols, R) \<and>
           nnls_frob (nnlsm_blockpivot ev) arr
             (columns (columns arr (take N_bright (rev (argsort (map sum_list arr))))) cols)
             = Inr (arc_H arc) \<and>
           arc_W arc = columns (columns arr (take N_bright (rev (argsort (map sum_list arr))))) cols \<and>
           noise_statistics rd (arc_W arc) (arc_H arc) axis = Inr st \<and>
           arc_mz_axis arc = axis \<and>
           arc_noise_prob arc = prob st \<and>
           arc_noise_sqrt_avg arc = sqrt_median st \<and>
           arc_noise_sqrt_std arc = sqrt_std st \<and>
           arc_min_intensities arc = min_intensities st"
  using assms(1) unfolding factorize_def Let_def rd_def axis_def
  by (auto split: if_splits sum.splits prod.splits)


section \<open>Properties of the noise statistics\<close>

lemma noise_bin_Inr:
  assumes "noise_bin rd W H i bin st = Inr st'"
  shows "i < length H" and "length W = length (H ! i)"
    and "list_all (\<lambda>c. length c = height rd * width rd) W"
    and "length (orig_img rd bin) = height rd * width rd"
    and "0 < height rd * width rd"
    and "min_intensities st' = update_min (min_intensities st) (orig_img rd bin)"
    and "prob st' = prob st @
           [real (length (filter (\<lambda>d. d > 0) (diff_img rd W H i bin))) / real (height rd * width rd)]"
    and "sqrt_median st' = sqrt_median st @
           [if filter (\<lambda>d. d > 0) (diff_img rd W H i bin) = [] then 0
            else median (map sqrt (filter (\<lambda>d. d > 0) (diff_img rd W H i bin)))]"
    and "sqrt_std st' = sqrt_std st @
           [if filter (\<lambda>d. d > 0) (diff_img rd W H i bin) = [] then 0
            else std (map sqrt (filter (\<lambda>d. d > 0) (diff_img rd W H i bin)))]"
  using assms
  by (auto simp: noise_bin_def Let_def mult.commute split: if_splits)


lemma noise_loop_Inr:
  assumes "noise_loop rd W H i bins st = Inr st'"
  shows "min_intensities st' = fold (\<lambda>bin m. update_min m (orig_img rd bin)) bins (min_intensities st) \<and>
    prob st' = prob st @
      map (\<lambda>k. real (length (filter (\<lambda>d. d > 0) (diff_img rd W H (i + k) (bins ! k)))) /
                real (height rd * width rd)) [0..<length bins] \<and>
    sqrt_median st' = sqrt_median st @
      map (\<lambda>k. if filter (\<lambda>d. d > 0) (diff_img rd W H (i + k) (bins ! k)) = [] then 0
                else median (map sqrt (filter (\<lambda>d. d > 0) (diff_img rd W H (i + k) (bins ! k)))))
        [0..<length bins] \<and>
    sqrt_std st' = sqrt_std st @
      map (\<lambda>k. if filter (\<lambda>d. d > 0) (diff_img rd W H (i + k) (bins ! k)) = [] then 0
                else std (map sqrt (filter (\<lambda>d. d > 0) (diff_img rd W H (i + k) (bins ! k)))))
        [0..<length bins] \<and>
    (\<forall>bin\<in>set bins. length (orig_img rd bin) = height rd * width rd) \<and>
    (\<forall>k<length bins. i + k < length H \<and> length W = length (H ! (i + k))) \<and>
    (bins \<noteq> [] \<longrightarrow> 0 < height rd * width rd \<and>
       list_all (\<lambda>c. length c = height rd * width rd) W)"
  using assms
proof (induction bins arbitrary: i st)
  case Nil
  then show ?case by simp
next
  case (Cons b bs)
  from Cons.prems obtain st1 where
    b: "noise_bin rd W H i b st = Inr st1" and
    r: "noise_loop rd W H (i + 1) bs st1 = Inr st'"
    by (auto split: sum.splits)
  note nb = noise_bin_Inr [OF b]
  note ih = Cons.IH [OF r]
  have idx: "\<forall>k<length (b # bs). i + k < length H \<and> length W = length (H ! (i + k))"
  proof (intro allI impI)
    fix k assume "k < length (b # bs)"
    then show "i + k < length H \<and> length W = length (H ! (i + k))"
      using nb(1,2) ih by (cases k) auto
  qed
  show ?case
    using nb(3-) ih idx
    by (simp add: map_upt_Suc del: upt_Suc)
qed


lemma length_update_min [simp]: "length (update_min m img) = min (length m) (length img)"
  by (simp add: update_min_def)

lemma update_min_nth:
  "p < length m \<Longrightarrow> p < length img \<Longrightarrow>
   update_min m img ! p = (if img ! p > 0 then np_minimum (m ! p) (img ! p) else m ! p)"
  by (simp add: update_min_def)

lemma fold_update_min_nth:
  assumes "\<forall>img\<in>set imgs. length img = length m" "p < length m"
  shows "length (fold (\<lambda>img m. update_min m img) imgs m) = length m \<and>
         fold (\<lambda>img m. update_min m img) imgs m ! p =
         fold (\<lambda>img a. if img ! p > 0 then np_minimum a (img ! p) else a) imgs (m ! p)"
  using assms
proof (induction imgs arbitrary: m)
  case Nil
  then show ?case by simp
next
  case (Cons img imgs)
  have l: "length (update_min m img) = length m" using Cons.prems by simp
  have "\<forall>i\<in>set imgs. length i = length (update_min m img)" using Cons.prems l by simp
  from Cons.IH [OF this] Cons.prems(2) l
  show ?case using Cons.prems by (simp add: update_min_nth)
qed

lemma Min_insert_min:
  "finite S \<Longrightarrow> Min (insert (min a v) S) = Min (insert (a :: real) (insert v S))"
  by (cases "S = {}") (simp_all add: min.assoc)

lemma fold_minimum_Fin:
  "fold (\<lambda>v a. if v > 0 then np_minimum a v else a) vs (Fin a) =
   Fin (Min (insert a {v \<in> set vs. v > 0}))"
proof (induction vs arbitrary: a)
  case Nil
  then show ?case by simp
next
  case (Cons v vs)
  show ?case
  proof (cases "v > 0")
    case True
    then have s: "{u \<in> set (v # vs). u > 0} = insert v {u \<in> set vs. u > 0}" by auto
    show ?thesis unfolding s using True Cons.IH [of "min a v"] by (simp add: Min_insert_min)
  next
    case False
    then have s: "{u \<in> set (v # vs). u > 0} = {u \<in> set vs. u > 0}" by auto
    show ?thesis unfolding s using False Cons.IH [of a] by simp
  qed
qed

lemma fold_minimum_PInf:
  "fold (\<lambda>v a. if v > 0 then np_minimum a v else a) vs PInf =
   (if {v \<in> set vs. v > 0} = {} then PInf else Fin (Min {v \<in> set vs. v > 0}))"
proof (induction vs)
  case Nil
  then show ?case by simp
next
  case (Cons v vs)
  show ?case
  proof (cases "v > 0")
    case True
    then have s: "{u \<in> set (v # vs). u > 0} = insert v {u \<in> set vs. u > 0}" by auto
    show ?thesis unfolding s using True by (simp add: fold_minimum_Fin)
  next
    case False
    then have s: "{u \<in> set (v # vs). u > 0} = {u \<in> set vs. u > 0}" by auto
    show ?thesis unfolding s using False Cons.IH by simp
  qed
qed

lemma fold_pixel:
  "fold (\<lambda>img a. if img ! p > 0 then np_minimum a (img ! p) else a) imgs a =
   fold (\<lambda>v a. if v > 0 then np_minimum a v else a) (map (\<lambda>img. img ! p) imgs) a"
  by (induction imgs arbitrary: a) simp_all

lemma fold_orig:
  "fold (\<lambda>bin m. update_min m (orig_img rd bin)) bins m =
   fold (\<lambda>img m. update_min m img) (map (orig_img rd) bins) m"
  by (induction bins arbitrary: m) simp_all

lemma min_map_pixel:
  assumes "\<forall>bin\<in>set bins. length (orig_img rd bin) = n" "p < n"
  shows "fold (\<lambda>bin m. update_min m (orig_img rd bin)) bins (replicate n PInf) ! p =
         (if {v. \<exists>bin\<in>set bins. v = orig_img rd bin ! p \<and> v > 0} = {} then PInf
          else Fin (Min {v. \<exists>bin\<in>set bins. v = orig_img rd bin ! p \<and> v > 0}))"
    and "length (fold (\<lambda>bin m. update_min m (orig_img rd bin)) bins (replicate n PInf)) = n"
proof -
  have a: "\<forall>img\<in>set (map (orig_img rd) bins). length img = length (replicate n PInf :: float64 list)"
    using assms(1) by simp
  have b: "p < length (replicate n PInf :: float64 list)" using assms(2) by simp
  note f = fold_update_min_nth [OF a b]
  have s: "{v \<in> set (map (\<lambda>img. img ! p) (map (orig_img rd) bins)). v > 0} =
           {v. \<exists>bin\<in>set bins. v = orig_img rd bin ! p \<and> v > 0}"
    by auto
  show "fold (\<lambda>bin m. update_min m (orig_img rd bin)) bins (replicate n PInf) ! p =
         (if {v. \<exists>bin\<in>set bins. v = orig_img rd bin ! p \<and> v > 0} = {} then PInf
          else Fin (Min {v. \<exists>bin\<in>set bins. v = orig_img rd bin ! p \<and> v > 0}))"
    using conjunct2 [OF f] assms(2) fold_minimum_PInf [of "map (\<lambda>img. img ! p) (map (orig_img rd) bins)"]
    unfolding fold_orig fold_pixel s by simp
  show "length (fold (\<lambda>bin m. update_min m (orig_img rd bin)) bins (replicate n PInf)) = n"
    using conjunct1 [OF f] unfolding fold_orig by simp
qed


lemma noise_statistics_Inr:
  assumes "noise_statistics rd W H axis = Inr st"
  shows "min_intensities st =
           fold (\<lambda>bin m. update_min m (orig_img rd bin)) axis (replicate (height rd * width rd) PInf)"
    and "prob st = map (\<lambda>k. real (length (filter (\<lambda>d. d > 0) (diff_img rd W H k (axis ! k)))) /
                real (height rd * width rd)) [0..<length axis]"
    and "sqrt_median st =
      map (\<lambda>k. if filter (\<lambda>d. d > 0) (diff_img rd W H k (axis ! k)) = [] then 0
                else median (map sqrt (filter (\<lambda>d. d > 0) (diff_img rd W H k (axis ! k)))))
        [0..<length axis]"
    and "sqrt_std st =
      map (\<lambda>k. if filter (\<lambda>d. d > 0) (diff_img rd W H k (axis ! k)) = [] then 0
                else std (map sqrt (filter (\<lambda>d. d > 0) (diff_img rd W H k (axis ! k)))))
        [0..<length axis]"
    and "\<forall>bin\<in>set axis. length (orig_img rd bin) = height rd * width rd"
    and "\<forall>k<length axis. k < length H \<and> length W = length (H ! k)"
    and "axis \<noteq> [] \<longrightarrow> 0 < height rd * width rd \<and>
           list_all (\<lambda>c. length c = height rd * width rd) W"
  using noise_loop_Inr [OF assms [unfolded noise_statistics_def]]
  by (simp_all add: noise_init_def)

lemma length_lincomb [simp]: "length (lincomb n A h) = n"
  by (simp add: lincomb_def)

lemma diff_img_nth:
  assumes "length (orig_img rd bin) = height rd * width rd" "p < height rd * width rd"
  shows "length (diff_img rd W H i bin) = height rd * width rd"
    and "diff_img rd W H i bin ! p = orig_img rd bin ! p - approx_img rd W H i ! p"
  using assms by (simp_all add: diff_img_def approx_img_def)

lemma lincomb_nonneg:
  assumes "list_all (list_all (\<lambda>v. 0 \<le> v)) A" "list_all (\<lambda>v. 0 \<le> v) h"
    and "list_all (\<lambda>c. length c = n) A" "p < n"
  shows "0 \<le> lincomb n A h ! p"
proof -
  have "0 \<le> sum_list (map2 (\<lambda>a c. a ! p * c) A h)"
  proof (rule sum_list_nonneg)
    fix t assume "t \<in> set (map2 (\<lambda>a c. a ! p * c) A h)"
    then obtain a c where ac: "(a, c) \<in> set (zip A h)" "t = a ! p * c" by auto
    then have "a \<in> set A" "c \<in> set h" by (auto dest: set_zip_leftD set_zip_rightD)
    then have "0 \<le> a ! p" "0 \<le> c"
      using assms by (auto simp: list_all_iff)
    then show "0 \<le> t" using ac by simp
  qed
  then show ?thesis using assms(4) by (simp add: lincomb_def)
qed

section \<open>Properties of the cleaning\<close>

lemma clamp_negative_nth:
  "p < length img \<Longrightarrow> clamp_negative img ! p = max 0 (img ! p)"
  by (simp add: clamp_negative_def max_def)

lemma clamp_negative_nonneg: "list_all (\<lambda>v. 0 \<le> v) (clamp_negative img)"
  by (induction img) (simp_all add: clamp_negative_def)

lemma percentile_nonneg:
  assumes "percentile a q = Inr perc" "list_all (\<lambda>v. 0 \<le> v) a" "0 \<le> q" "q \<le> 100"
  shows "0 \<le> perc"
proof -
  from assms(1) have ne: "a \<noteq> []" by (auto simp: percentile_def split: if_splits)
  define n where "n = length a"
  define idx where "idx = q / 100 * real (n - 1)"
  define below where "below = nat \<lfloor>idx\<rfloor>"
  define above where "above = min (below + 1) (n - 1)"
  have n: "0 < n" using ne by (simp add: n_def)
  have i0: "0 \<le> idx" using assms(3) by (simp add: idx_def)
  have i1: "idx \<le> real (n - 1)"
  proof -
    have "q / 100 * real (n - 1) \<le> 1 * real (n - 1)"
      using assms(4) by (intro mult_right_mono) auto
    then show ?thesis by (simp add: idx_def)
  qed
  have bl: "real below \<le> idx" using i0 by (simp add: below_def)
  have bu: "idx - real below < 1" using i0 by (simp add: below_def) linarith
  have "\<lfloor>idx\<rfloor> \<le> int (n - 1)" using i1 by (simp add: floor_le_iff) 
  then have b: "below < n" using n by (simp add: below_def)
  have ab: "above < n" using n by (simp add: above_def min_def) linarith
  have el: "\<And>k. k < n \<Longrightarrow> 0 \<le> sort a ! k"
  proof -
    fix k assume "k < n"
    then have "k < length (sort a)" by (simp add: n_def)
    then have "sort a ! k \<in> set (sort a)" by (rule nth_mem)
    then show "0 \<le> sort a ! k" using assms(2) by (simp add: list_all_iff)
  qed
  have p: "perc = sort a ! below * (1 - (idx - real below)) + sort a ! above * (idx - real below)"
    using assms(1) ne by (simp add: percentile_def Let_def n_def idx_def below_def above_def)
  have "0 \<le> sort a ! below * (1 - (idx - real below))"
    using el [OF b] bu by (intro mult_nonneg_nonneg) auto
  moreover have "0 \<le> sort a ! above * (idx - real below)"
    using el [OF ab] bl by (intro mult_nonneg_nonneg) auto
  ultimately show ?thesis unfolding p by linarith
qed

lemma clean_image_Inr:
  assumes "clean_image rd bin = Inr img"
  shows "\<exists>perc. percentile (orig_img rd bin) 99 = Inr perc \<and> 0 \<le> perc \<and>
           img = clip_above perc (orig_img rd bin)"
proof -
  from assms obtain perc where p: "percentile (orig_img rd bin) 99 = Inr perc"
    and i: "img = clip_above perc (orig_img rd bin)"
    by (auto simp: clean_image_def orig_img_def Let_def split: sum.splits if_splits)
  have "0 \<le> perc"
    by (rule percentile_nonneg [OF p]) (simp_all add: orig_img_def clamp_negative_nonneg)
  then show ?thesis using p i by blast
qed

lemma clip_above_nth:
  "p < length img \<Longrightarrow> clip_above perc img ! p = min (img ! p) perc"
  by (simp add: clip_above_def min_def)

lemma clean_image_nonneg:
  assumes "clean_image rd bin = Inr img"
  shows "list_all (\<lambda>v. 0 \<le> v) img"
proof -
  from clean_image_Inr [OF assms] obtain perc where
    p: "0 \<le> perc" "img = clip_above perc (orig_img rd bin)" by blast
  have "list_all (\<lambda>v. 0 \<le> v) (orig_img rd bin)"
    by (simp add: orig_img_def clamp_negative_nonneg)
  then show ?thesis using p by (auto simp: clip_above_def list_all_iff)
qed

section \<open>The minimum intensity map and the noise probability\<close>

lemma upt_2 [simp]: "[0..<2] = [0, 1]"
  by (simp add: upt_rec)

lemma replicate_2 [simp]: "replicate 2 x = [x, x]"
  by (simp add: numeral_2_eq_2)

lemma pair_noise:
  "noise_statistics store_pair [[0, 99]] [[1], [1]] [(100, 0), (50, - 3)] =
     Inr \<lparr>prob = [1 / 2, 0], sqrt_median = [1, 0], sqrt_std = [0, 0],
          min_intensities = [PInf, Fin 50]\<rparr>"
  by (simp add: noise_statistics_def noise_init_def noise_bin_def Let_def diff_img_def
      approx_img_def lincomb_def orig_img_def clamp_negative_def update_min_def store_pair_def
      median_def std_def mean_def)

text \<open>
  Claim C5. The map starts as \<open>height * width\<close> entries \<open>+inf\<close>; the pass folds
  \<open>update_min\<close> over the bins in the order of the axis, and \<open>update_min\<close> changes an
  entry only where the image of the bin is positive, to the minimum of the entry and
  the intensity. After a pass that returns, the entry of a pixel that is positive in
  some bin's image (the image \<open>orig_img\<close> of the pass) is finite and is the least of
  the positive intensities of the pixel over all bins; a pixel that is positive in some
  bin's image as \<open>get_mz_images\<close> cleans it is positive in \<open>orig_img\<close> too, so its entry
  is finite.
\<close>

theorem min_intensity_map:
  "noise_statistics rd W H mz_axis = Inr st \<longrightarrow>
     min_intensities st =
       fold (\<lambda>bin m. update_min m (orig_img rd bin)) mz_axis (replicate (height rd * width rd) PInf) \<and>
     (\<forall>m img p. p < length m \<and> p < length img \<longrightarrow>
        update_min m img ! p = (if img ! p > 0 then np_minimum (m ! p) (img ! p) else m ! p)) \<and>
     (\<forall>p < height rd * width rd.
        ((\<exists>bin\<in>set mz_axis. orig_img rd bin ! p > 0) \<longrightarrow>
           min_intensities st ! p =
             Fin (Min {v. \<exists>bin\<in>set mz_axis. v = orig_img rd bin ! p \<and> v > 0})) \<and>
        ((\<exists>bin\<in>set mz_axis. \<exists>img. clean_image rd bin = Inr img \<and> img ! p > 0) \<longrightarrow>
           (\<exists>v. min_intensities st ! p = Fin v)))"
proof (intro impI conjI allI)
  assume run: "noise_statistics rd W H mz_axis = Inr st"
  note ns = noise_statistics_Inr [OF run]
  show "min_intensities st =
       fold (\<lambda>bin m. update_min m (orig_img rd bin)) mz_axis (replicate (height rd * width rd) PInf)"
    by (rule ns(1))
  fix p assume p: "p < height rd * width rd"
  let ?V = "{v. \<exists>bin\<in>set mz_axis. v = orig_img rd bin ! p \<and> v > 0}"
  have px: "min_intensities st ! p = (if ?V = {} then PInf else Fin (Min ?V))"
    unfolding ns(1) by (rule min_map_pixel(1) [OF ns(5) p])
  {
    assume "\<exists>bin\<in>set mz_axis. orig_img rd bin ! p > 0"
    then have "?V \<noteq> {}" by auto
    then show "min_intensities st ! p = Fin (Min ?V)" using px by simp
  }
  {
    assume "\<exists>bin\<in>set mz_axis. \<exists>img. clean_image rd bin = Inr img \<and> img ! p > 0"
    then obtain bin img where b: "bin \<in> set mz_axis" "clean_image rd bin = Inr img" "img ! p > 0"
      by blast
    from clean_image_Inr [OF b(2)] obtain perc where
      i: "img = clip_above perc (orig_img rd bin)" by blast
    have "p < length (orig_img rd bin)" using ns(5) b(1) p by simp
    then have "img ! p = min (orig_img rd bin ! p) perc" unfolding i by (rule clip_above_nth)
    then have "orig_img rd bin ! p > 0" using b(3) by simp
    then have "?V \<noteq> {}" using b(1) by auto
    then show "\<exists>v. min_intensities st ! p = Fin v" using px by simp
  }
next
  fix m :: "float64 list" and img :: image and p
  assume "p < length m \<and> p < length img"
  then show "update_min m img ! p = (if img ! p > 0 then np_minimum (m ! p) (img ! p) else m ! p)"
    by (simp add: update_min_nth)
qed

theorem min_intensity_map_witness:
  "noise_statistics store_pair [[0, 99]] [[1], [1]] [(100, 0), (50, - 3)] =
     Inr \<lparr>prob = [1 / 2, 0], sqrt_median = [1, 0], sqrt_std = [0, 0],
          min_intensities = [PInf, Fin 50]\<rparr> \<and>
   orig_img store_pair (100, 0) = [0, 100] \<and> orig_img store_pair (50, - 3) = [0, 50] \<and>
   Fin 50 = Fin (Min {v. \<exists>bin\<in>set [(100, 0), (50, - 3)]. v = orig_img store_pair bin ! 1 \<and> v > 0})"
proof -
  have o: "orig_img store_pair (100, 0) = [0, 100]" "orig_img store_pair (50, - 3) = [0, 50]"
    by (simp_all add: orig_img_def clamp_negative_def store_pair_def)
  have hw: "height store_pair * width store_pair = 2" by (simp add: store_pair_def)
  have ex: "\<exists>bin\<in>set [(100, 0), (50, - 3)]. orig_img store_pair bin ! 1 > 0"
    by (simp add: o)
  have one: "1 < height store_pair * width store_pair" by (simp add: hw)
  note c = min_intensity_map [THEN mp, OF pair_noise]
  note d = conjunct2 [OF conjunct2 [OF c]]
  note e = conjunct1 [OF d [rule_format, OF one]]
  have "min_intensities \<lparr>prob = [1 / 2, 0], sqrt_median = [1, 0], sqrt_std = [0, 0],
          min_intensities = [PInf, Fin 50]\<rparr> ! 1 =
        Fin (Min {v. \<exists>bin\<in>set [(100, 0), (50, - 3)]. v = orig_img store_pair bin ! 1 \<and> v > 0})"
    by (rule e [THEN mp, OF ex])
  then have "Fin 50 = Fin (Min {v. \<exists>bin\<in>set [(100, 0), (50, - 3)]. v = orig_img store_pair bin ! 1 \<and> v > 0})"
    by simp
  then show ?thesis using pair_noise o by blast
qed


text \<open>
  Claim C6. After a pass that returns, the probability recorded for bin \<open>i\<close> is the
  number of pixels with \<open>orig_img - approx_img > 0\<close> divided by \<open>height * width\<close>
  (which is positive), it lies between 0 and 1, and it is 0 exactly when the
  reconstruction is at least the original at every pixel.
\<close>

theorem noise_probability:
  "noise_statistics rd W H mz_axis = Inr st \<and> i < length mz_axis \<longrightarrow>
     length (prob st) = length mz_axis \<and>
     0 < height rd * width rd \<and>
     length (diff_img rd W H i (mz_axis ! i)) = height rd * width rd \<and>
     (\<forall>p < height rd * width rd.
        diff_img rd W H i (mz_axis ! i) ! p =
          orig_img rd (mz_axis ! i) ! p - approx_img rd W H i ! p) \<and>
     prob st ! i =
       real (length (filter (\<lambda>d. d > 0) (diff_img rd W H i (mz_axis ! i)))) /
       real (height rd * width rd) \<and>
     0 \<le> prob st ! i \<and> prob st ! i \<le> 1 \<and>
     (prob st ! i = 0 \<longleftrightarrow>
        (\<forall>p < height rd * width rd. orig_img rd (mz_axis ! i) ! p \<le> approx_img rd W H i ! p))"
proof (intro impI)
  assume a: "noise_statistics rd W H mz_axis = Inr st \<and> i < length mz_axis"
  then have run: "noise_statistics rd W H mz_axis = Inr st" and i: "i < length mz_axis"
    by simp_all
  note ns = noise_statistics_Inr [OF run]
  let ?n = "height rd * width rd"
  let ?diff = "diff_img rd W H i (mz_axis ! i)"
  have ne: "mz_axis \<noteq> []" using i by auto
  have n: "0 < ?n" using ns(7) ne by simp
  have lo: "length (orig_img rd (mz_axis ! i)) = ?n" using ns(5) i by simp
  have ld: "length ?diff = ?n" using lo by (simp add: diff_img_def approx_img_def)
  have dn: "\<forall>p < ?n. ?diff ! p = orig_img rd (mz_axis ! i) ! p - approx_img rd W H i ! p"
    using diff_img_nth(2) [OF lo] by blast
  have lp: "length (prob st) = length mz_axis" unfolding ns(2) by simp
  have pr: "prob st ! i = real (length (filter (\<lambda>d. d > 0) ?diff)) / real ?n"
    unfolding ns(2) using i by simp
  have le: "length (filter (\<lambda>d. d > 0) ?diff) \<le> ?n"
    using length_filter_le [of "\<lambda>d. d > 0" ?diff] ld by simp
  have p0: "0 \<le> prob st ! i" unfolding pr by simp
  have p1: "prob st ! i \<le> 1"
  proof -
    define c where "c = real (length (filter (\<lambda>d. d > 0) ?diff))"
    define m where "m = real ?n"
    have "c \<le> m" unfolding c_def m_def using le by (subst of_nat_le_iff)
    moreover have "0 < m" unfolding m_def using n by (subst of_nat_0_less_iff)
    ultimately have "c / m \<le> 1" by simp
    then show ?thesis unfolding pr c_def m_def .
  qed
  have "prob st ! i = 0 \<longleftrightarrow> filter (\<lambda>d. d > 0) ?diff = []"
    unfolding pr using n by simp
  also have "\<dots> \<longleftrightarrow> (\<forall>d\<in>set ?diff. \<not> d > 0)"
    by (simp add: filter_empty_conv)
  also have "\<dots> \<longleftrightarrow> (\<forall>p < ?n. \<not> ?diff ! p > 0)"
    using ld by (auto simp: set_conv_nth)
  also have "\<dots> \<longleftrightarrow> (\<forall>p < ?n. orig_img rd (mz_axis ! i) ! p \<le> approx_img rd W H i ! p)"
    using dn by (auto simp: not_less)
  finally have z: "prob st ! i = 0 \<longleftrightarrow>
      (\<forall>p < ?n. orig_img rd (mz_axis ! i) ! p \<le> approx_img rd W H i ! p)" .
  show "length (prob st) = length mz_axis \<and> 0 < ?n \<and> length ?diff = ?n \<and>
     (\<forall>p < ?n. ?diff ! p = orig_img rd (mz_axis ! i) ! p - approx_img rd W H i ! p) \<and>
     prob st ! i = real (length (filter (\<lambda>d. d > 0) ?diff)) / real ?n \<and>
     0 \<le> prob st ! i \<and> prob st ! i \<le> 1 \<and>
     (prob st ! i = 0 \<longleftrightarrow>
        (\<forall>p < ?n. orig_img rd (mz_axis ! i) ! p \<le> approx_img rd W H i ! p))"
    using lp n ld dn pr p0 p1 z by blast
qed

theorem noise_probability_witness:
  "noise_statistics store_pair [[0, 99]] [[1], [1]] [(100, 0), (50, - 3)] =
     Inr \<lparr>prob = [1 / 2, 0], sqrt_median = [1, 0], sqrt_std = [0, 0],
          min_intensities = [PInf, Fin 50]\<rparr> \<and>
   diff_img store_pair [[0, 99]] [[1], [1]] 0 (100, 0) = [0, 1] \<and>
   diff_img store_pair [[0, 99]] [[1], [1]] 1 (50, - 3) = [0, - 49] \<and>
   (1 / 2 :: real) = real (length (filter (\<lambda>d. d > 0) [0, 1 :: real])) / real (1 * 2) \<and>
   (0 :: real) = real (length (filter (\<lambda>d. d > 0) [0, - 49 :: real])) / real (1 * 2) \<and>
   (0 :: real) \<le> 1 / 2 \<and> (1 / 2 :: real) \<le> 1"
proof -
  have d: "diff_img store_pair [[0, 99]] [[1], [1]] 0 (100, 0) = [0, 1]"
    "diff_img store_pair [[0, 99]] [[1], [1]] 1 (50, - 3) = [0, - 49]"
    by (simp_all add: diff_img_def approx_img_def lincomb_def orig_img_def clamp_negative_def
        store_pair_def)
  have hw: "height store_pair = 1" "width store_pair = 2" by (simp_all add: store_pair_def)
  have i0: "noise_statistics store_pair [[0, 99]] [[1], [1]] [(100, 0), (50, - 3)] =
     Inr \<lparr>prob = [1 / 2, 0], sqrt_median = [1, 0], sqrt_std = [0, 0],
          min_intensities = [PInf, Fin 50]\<rparr> \<and> 0 < length [(100 :: real, 0 :: real), (50, - 3)]"
    using pair_noise by simp
  have i1: "noise_statistics store_pair [[0, 99]] [[1], [1]] [(100, 0), (50, - 3)] =
     Inr \<lparr>prob = [1 / 2, 0], sqrt_median = [1, 0], sqrt_std = [0, 0],
          min_intensities = [PInf, Fin 50]\<rparr> \<and> 1 < length [(100 :: real, 0 :: real), (50, - 3)]"
    using pair_noise by simp
  note a = noise_probability [THEN mp, OF i0]
  note b = noise_probability [THEN mp, OF i1]
  have a': "(1 / 2 :: real) = real (length (filter (\<lambda>d. d > 0) [0, 1 :: real])) / real (1 * 2)"
    "(0 :: real) \<le> 1 / 2" "(1 / 2 :: real) \<le> 1"
    using a by (simp_all add: d hw)
  have b': "(0 :: real) = real (length (filter (\<lambda>d. d > 0) [0, - 49 :: real])) / real (1 * 2)"
    using b by (simp add: d hw)
  show ?thesis using pair_noise d a' b' by blast
qed

section \<open>A complete run\<close>

text \<open>The run of \<open>main\<close> on the store \<open>store_line\<close> with rank 10, stage by stage.\<close>

lemma line_stage_axis:
  "generate_mz_axis env_line (min_mz store_line - 0.1) (max_mz store_line + 0.1) (args_rank 10)
     = line_axis"
  by code_simp

lemma line_stage_arr: "compute_arr store_line (partition_all K line_axis) = Inr line_arr"
  by code_simp

lemma line_stage_x:
  "line_x = columns line_arr (take N_bright (rev (argsort (map sum_list line_arr))))"
  by code_simp

lemma line_stage_cols:
  "xray_loop (nnlsm_blockpivot env_line) (random_draw env_line)
     (height store_line * width store_line) line_x (rank (args_rank 10)) [] line_x
   = Inr (line_cols, replicate 11 [0, 0])"
  by code_simp

lemma line_stage_W: "columns line_x line_cols = line_W"
  by code_simp

lemma line_stage_H: "nnls_frob (nnlsm_blockpivot env_line) line_arr line_W = Inr line_H"
  by code_simp

lemma line_stage_noise:
  "\<exists>st. noise_statistics store_line line_W line_H line_axis = Inr st \<and>
     prob st = [0, 1 / 2, 1 / 2, 1 / 2, 1 / 2, 1 / 2, 1 / 2, 1 / 2, 1 / 2, 1 / 2, 1 / 2] \<and>
     min_intensities st = [Fin 1, PInf] \<and> sqrt_median st ! 0 = 0 \<and> sqrt_std st ! 0 = 0"
  by (simp add: noise_statistics_def noise_init_def noise_bin_def Let_def diff_img_def
      approx_img_def lincomb_def orig_img_def clamp_negative_def update_min_def store_line_def
      median_def std_def mean_def line_W_def line_H_def line_axis_def)

lemma line_run:
  "\<exists>arc. main env_line (args_rank 10) = Saved ''nmf.npz'' arc \<and>
     arc_W arc = line_W \<and> arc_H arc = line_H \<and> arc_mz_axis arc = line_axis \<and>
     arc_noise_prob arc = [0, 1 / 2, 1 / 2, 1 / 2, 1 / 2, 1 / 2, 1 / 2, 1 / 2, 1 / 2, 1 / 2, 1 / 2] \<and>
     arc_min_intensities arc = [Fin 1, PInf] \<and>
     arc_noise_sqrt_avg arc ! 0 = 0 \<and> arc_noise_sqrt_std arc ! 0 = 0"
proof -
  from line_stage_noise obtain st where
    st: "noise_statistics store_line line_W line_H line_axis = Inr st"
    and v: "prob st = [0, 1 / 2, 1 / 2, 1 / 2, 1 / 2, 1 / 2, 1 / 2, 1 / 2, 1 / 2, 1 / 2, 1 / 2]"
      "min_intensities st = [Fin 1, PInf]" "sqrt_median st ! 0 = 0" "sqrt_std st ! 0 = 0"
    by blast
  have rd: "store_line = ImzbReader env_line (input_path (args_rank 10))"
    by (simp add: env_line_def)
  have lo: "0 < min_mz store_line - 0.1" and hi: "1 < max_mz store_line + 0.1"
    by (simp_all add: store_line_def)
  have f: "factorize env_line (args_rank 10) =
         Inr \<lparr>arc_W = columns line_x line_cols, arc_H = line_H, arc_mz_axis = line_axis,
              arc_shape = (height store_line, width store_line), arc_noise_prob = prob st,
              arc_noise_sqrt_avg = sqrt_median st, arc_noise_sqrt_std = sqrt_std st,
              arc_min_intensities = min_intensities st\<rparr>"
    by (rule factorize_stages [OF rd lo hi line_stage_axis [symmetric] line_stage_arr line_stage_x
          line_stage_cols line_stage_H [folded line_stage_W] st [folded line_stage_W]])
  have "main env_line (args_rank 10) =
        Saved ''nmf.npz'' \<lparr>arc_W = columns line_x line_cols, arc_H = line_H, arc_mz_axis = line_axis,
              arc_shape = (height store_line, width store_line), arc_noise_prob = prob st,
              arc_noise_sqrt_avg = sqrt_median st, arc_noise_sqrt_std = sqrt_std st,
              arc_min_intensities = min_intensities st\<rparr>"
    by (simp add: main_def f) (simp add: args_rank_def)
  then show ?thesis using v line_stage_W by simp
qed

section \<open>What a run that saves an archive went through\<close>

lemma get_mz_images_Inr:
  "get_mz_images rd chunk = Inr imgs \<Longrightarrow>
   \<forall>c\<in>set imgs. \<exists>bin\<in>set chunk. clean_image rd bin = Inr c"
proof (induction chunk arbitrary: imgs)
  case Nil
  then show ?case by simp
next
  case (Cons bin chunk)
  from Cons.prems obtain img rest where
    a: "clean_image rd bin = Inr img" "get_mz_images rd chunk = Inr rest" "imgs = img # rest"
    by (auto split: sum.splits)
  show ?case using Cons.IH [OF a(2)] a(1,3) by auto
qed

lemma compute_arr_Inr:
  "compute_arr rd chunks = Inr arr \<Longrightarrow>
   \<forall>c\<in>set arr. \<exists>bin\<in>set (concat chunks). clean_image rd bin = Inr c"
proof (induction chunks arbitrary: arr)
  case Nil
  then show ?case by simp
next
  case (Cons chunk chunks)
  from Cons.prems obtain imgs rest where
    a: "get_mz_images rd chunk = Inr imgs" "compute_arr rd chunks = Inr rest" "arr = imgs @ rest"
    by (auto split: sum.splits)
  show ?case using Cons.IH [OF a(2)] get_mz_images_Inr [OF a(1)] a(3) by fastforce
qed

lemma set_argsort: "set (argsort a) = {0..<length a}"
proof -
  have m: "map snd (zip a [0..<length a]) = [0..<length a]"
    by (rule map_snd_zip) simp
  have "snd ` set (zip a [0..<length a]) = set (map snd (zip a [0..<length a]))"
    by (simp only: set_map)
  also have "\<dots> = {0..<length a}" unfolding m by simp
  finally show ?thesis by (simp add: argsort_def)
qed

lemma columns_subset: "\<forall>j\<in>set idx. j < length x \<Longrightarrow> set (columns x idx) \<subseteq> set x"
  by (auto simp: columns_def)

lemma main_Saved:
  assumes "main ev a = Saved path arc"
  shows "10 \<le> rank a" and "factorize ev a = Inr arc" and "path = output_path a"
  using assms by (auto simp: main_def split: if_splits sum.splits)

lemma factorize_basis_images:
  assumes "factorize ev a = Inr arc"
  shows "\<forall>c\<in>set (arc_W arc). \<exists>bin\<in>set (arc_mz_axis arc).
           clean_image (ImzbReader ev (input_path a)) bin = Inr c"
proof -
  define rd where "rd = ImzbReader ev (input_path a)"
  define axis where "axis = generate_mz_axis ev (min_mz rd - 0.1) (max_mz rd + 0.1) a"
  from factorize_Inr [OF assms, folded rd_def, folded axis_def]
  obtain arr cols R where
    arr: "compute_arr rd (partition_all K axis) = Inr arr" and
    xr: "xray_loop (nnlsm_blockpivot ev) (random_draw ev) (height rd * width rd)
           (columns arr (take N_bright (rev (argsort (map sum_list arr))))) (rank a) []
           (columns arr (take N_bright (rev (argsort (map sum_list arr))))) = Inr (cols, R)" and
    W: "arc_W arc = columns (columns arr (take N_bright (rev (argsort (map sum_list arr))))) cols" and
    ax: "arc_mz_axis arc = axis"
    by blast
  let ?x = "columns arr (take N_bright (rev (argsort (map sum_list arr))))"
  have "\<forall>j\<in>set (take N_bright (rev (argsort (map sum_list arr)))). j < length arr"
    using set_argsort [of "map sum_list arr"] by (auto dest!: in_set_takeD)
  then have x: "set ?x \<subseteq> set arr" by (rule columns_subset)
  have "\<forall>c\<in>set cols. c < length ?x"
  proof (cases "0 \<le> rank a")
    case True
    have "distinct cols \<and> (\<forall>c\<in>set cols. c < length ?x) \<and> int (length cols) = rank a \<and>
        (\<exists>new. cols = [] @ new)"
      using True by (intro xray_loop_inv [OF xr]) simp_all
    then show ?thesis by blast
  next
    case False
    then have "cols = []" using xr by (simp add: xray_loop.simps)
    then show ?thesis by simp
  qed
  then have "set (columns ?x cols) \<subseteq> set ?x" by (rule columns_subset)
  then have sub: "set (arc_W arc) \<subseteq> set arr" using x W by simp
  have "concat (partition_all K axis) = axis" by (rule concat_partition_all) (simp add: K_def)
  then have "\<forall>c\<in>set arr. \<exists>bin\<in>set axis. clean_image rd bin = Inr c"
    using compute_arr_Inr [OF arr] by simp
  then show ?thesis using sub ax unfolding rd_def by blast
qed

lemma factorize_H_nonneg:
  assumes "factorize ev a = Inr arc" "nonneg_solver (nnlsm_blockpivot ev)"
  shows "list_all (list_all (\<lambda>v. 0 \<le> v)) (arc_H arc)"
proof -
  from factorize_Inr [OF assms(1)] obtain arr A where
    H: "nnls_frob (nnlsm_blockpivot ev) arr A = Inr (arc_H arc)"
    by blast
  have "\<forall>c\<in>set (arc_H arc). list_all (\<lambda>v. 0 \<le> v) c"
  proof
    fix c assume "c \<in> set (arc_H arc)"
    then obtain chunk where "c \<in> set (nnlsm_blockpivot ev A (columns arr chunk))"
      unfolding nnls_frob_result(1) [OF H] by auto
    then show "list_all (\<lambda>v. 0 \<le> v) c"
      using assms(2) by (auto simp: nonneg_solver_def list_all_iff)
  qed
  then show ?thesis by (simp add: list_all_iff)
qed

lemma factorize_W_nonneg:
  assumes "factorize ev a = Inr arc"
  shows "list_all (list_all (\<lambda>v. 0 \<le> v)) (arc_W arc)"
  using factorize_basis_images [OF assms] clean_image_nonneg
  by (fastforce simp: list_all_iff)

section \<open>The archive\<close>

text \<open>
  Claim C4. In a run that saves an archive, every column of \<open>W\<close> is the image of a bin
  of the axis as \<open>get_mz_images\<close> cleans it, and every entry of \<open>W\<close> is at least 0;
  with a solver that returns non-negative matrices every entry of \<open>H\<close> is at least 0
  too (\<open>H\<close> is made of the solver's results on the batches and of nothing else).
\<close>

theorem archive_nonneg:
  "(main ev a = Saved path arc \<longrightarrow>
      (\<forall>c\<in>set (arc_W arc). \<exists>bin\<in>set (arc_mz_axis arc).
          clean_image (ImzbReader ev (input_path a)) bin = Inr c) \<and>
      list_all (list_all (\<lambda>v. 0 \<le> v)) (arc_W arc)) \<and>
   (main ev a = Saved path arc \<and> nonneg_solver (nnlsm_blockpivot ev) \<longrightarrow>
      list_all (list_all (\<lambda>v. 0 \<le> v)) (arc_H arc))"
proof (intro conjI impI)
  assume s: "main ev a = Saved path arc"
  note f = main_Saved(2) [OF s]
  show "\<forall>c\<in>set (arc_W arc). \<exists>bin\<in>set (arc_mz_axis arc).
          clean_image (ImzbReader ev (input_path a)) bin = Inr c"
    by (rule factorize_basis_images [OF f])
  show "list_all (list_all (\<lambda>v. 0 \<le> v)) (arc_W arc)"
    by (rule factorize_W_nonneg [OF f])
next
  assume s: "main ev a = Saved path arc \<and> nonneg_solver (nnlsm_blockpivot ev)"
  then have f: "factorize ev a = Inr arc" using main_Saved(2) by blast
  show "list_all (list_all (\<lambda>v. 0 \<le> v)) (arc_H arc)"
    using factorize_H_nonneg [OF f] s by blast
qed

theorem archive_nonneg_witness:
  "\<exists>arc. main env_line (args_rank 10) = Saved ''nmf.npz'' arc \<and>
     arc_W arc = line_W \<and> arc_H arc = line_H \<and>
     nonneg_solver (nnlsm_blockpivot env_line) \<and>
     list_all (list_all (\<lambda>v. 0 \<le> v)) line_W \<and>
     list_all (list_all (\<lambda>v. 0 \<le> v)) line_H"
proof -
  from line_run obtain arc where
    r: "main env_line (args_rank 10) = Saved ''nmf.npz'' arc" and
    v: "arc_W arc = line_W" "arc_H arc = line_H"
    by blast
  have n: "nonneg_solver (nnlsm_blockpivot env_line)"
    using project_first_nonneg by (simp add: env_line_def)
  note t = archive_nonneg [of env_line "args_rank 10" "''nmf.npz''" arc]
  have w: "list_all (list_all (\<lambda>v. 0 \<le> v)) (arc_W arc)"
    using conjunct1 [OF t] r by blast
  have h: "list_all (list_all (\<lambda>v. 0 \<le> v)) (arc_H arc)"
    using conjunct2 [OF t] r n by blast
  show ?thesis using r v n w h by auto
qed

text \<open>
  Claim C3. With a rank below 10 the run prints the message and exits with status 1:
  it is the same whatever the store, the axis generator, the solver and the random
  numbers are, and no archive is saved. With a rank of 10 or more the test passes and
  the run is the rest of the script.
\<close>

theorem rank_validation:
  "(rank a < 10 \<longrightarrow>
      main ev a = Exited (''Factorization rank must be at least 10! Exiting.'' @ [CHR 0x0A]) 1 \<and>
      (\<forall>path arc. main ev a \<noteq> Saved path arc) \<and>
      main ev a = main ev' a) \<and>
   (10 \<le> rank a \<longrightarrow>
      main ev a = (case factorize ev a of Inl e \<Rightarrow> Raised e | Inr arc \<Rightarrow> Saved (output_path a) arc))"
  by (simp add: main_def)

theorem rank_validation_witness:
  "rank (args_rank 9) < 10 \<and>
   main env_line (args_rank 9) =
     Exited (''Factorization rank must be at least 10! Exiting.'' @ [CHR 0x0A]) 1 \<and>
   10 \<le> rank (args_rank 10) \<and>
   (\<exists>arc. factorize env_line (args_rank 10) = Inr arc \<and>
          main env_line (args_rank 10) = Saved ''nmf.npz'' arc)"
proof -
  have a: "rank (args_rank 9) < 10" and b: "10 \<le> rank (args_rank 10)"
    by (simp_all add: args_rank_def)
  note t9 = rank_validation [of "args_rank 9" env_line env_line]
  note t10 = rank_validation [of "args_rank 10" env_line env_line]
  have one: "main env_line (args_rank 9) =
     Exited (''Factorization rank must be at least 10! Exiting.'' @ [CHR 0x0A]) 1"
    using conjunct1 [OF t9] a by blast
  from line_run obtain arc where r: "main env_line (args_rank 10) = Saved ''nmf.npz'' arc"
    by blast
  have "main env_line (args_rank 10) =
      (case factorize env_line (args_rank 10) of Inl e \<Rightarrow> Raised e
       | Inr arc \<Rightarrow> Saved (output_path (args_rank 10)) arc)"
    using conjunct2 [OF t10] b by blast
  then have "factorize env_line (args_rank 10) = Inr arc"
    using r by (auto split: sum.splits)
  then show ?thesis using a b one r by blast
qed

section \<open>The image of the noise statistics\<close>

text \<open>
  Claim C1, as the code has it. The image the noise statistics work on is the stored
  image with its negative intensities set to 0, and nothing else: every pixel is
  \<open>max 0\<close> of the stored intensity. The image of \<open>get_mz_images\<close> is that image
  clipped at its 99th percentile, so the two agree at the pixels that do not exceed
  the percentile and only there. The minimum map and the residual of the pass are
  computed from the image that is not clipped.
\<close>

theorem noise_pass_cleaning:
  "length (orig_img rd bin) = length (get_mz_image rd (fst bin) (snd bin)) \<and>
   (\<forall>p < length (get_mz_image rd (fst bin) (snd bin)).
      orig_img rd bin ! p = max 0 (get_mz_image rd (fst bin) (snd bin) ! p)) \<and>
   (clean_image rd bin = Inr img \<longrightarrow>
      (\<exists>perc. percentile (orig_img rd bin) 99 = Inr perc \<and> 0 \<le> perc \<and>
         length img = length (orig_img rd bin) \<and>
         (\<forall>p < length img. img ! p = min (orig_img rd bin ! p) perc))) \<and>
   (noise_bin rd W H i bin st = Inr st' \<longrightarrow>
      min_intensities st' = update_min (min_intensities st) (orig_img rd bin) \<and>
      (\<forall>p < height rd * width rd.
         diff_img rd W H i bin ! p =
           max 0 (get_mz_image rd (fst bin) (snd bin) ! p) - approx_img rd W H i ! p))"
proof (intro conjI impI)
  show l: "length (orig_img rd bin) = length (get_mz_image rd (fst bin) (snd bin))"
    by (simp add: orig_img_def clamp_negative_def)
  show o: "\<forall>p < length (get_mz_image rd (fst bin) (snd bin)).
      orig_img rd bin ! p = max 0 (get_mz_image rd (fst bin) (snd bin) ! p)"
    by (simp add: orig_img_def clamp_negative_nth)
  {
    assume "clean_image rd bin = Inr img"
    from clean_image_Inr [OF this] obtain perc where
      p: "percentile (orig_img rd bin) 99 = Inr perc" "0 \<le> perc"
        "img = clip_above perc (orig_img rd bin)" by blast
    have "length img = length (orig_img rd bin)" using p(3) by (simp add: clip_above_def)
    moreover have "\<forall>q < length img. img ! q = min (orig_img rd bin ! q) perc"
      using p(3) by (simp add: clip_above_def min_def)
    ultimately show "\<exists>perc. percentile (orig_img rd bin) 99 = Inr perc \<and> 0 \<le> perc \<and>
         length img = length (orig_img rd bin) \<and>
         (\<forall>p < length img. img ! p = min (orig_img rd bin ! p) perc)"
      using p(1,2) by blast
  }
  {
    assume nb: "noise_bin rd W H i bin st = Inr st'"
    show "min_intensities st' = update_min (min_intensities st) (orig_img rd bin)"
      by (rule noise_bin_Inr(6) [OF nb])
    show "\<forall>p < height rd * width rd.
         diff_img rd W H i bin ! p =
           max 0 (get_mz_image rd (fst bin) (snd bin) ! p) - approx_img rd W H i ! p"
      using diff_img_nth(2) [OF noise_bin_Inr(4) [OF nb]] o l noise_bin_Inr(4) [OF nb]
      by simp
  }
qed

theorem noise_pass_cleaning_witness:
  "clean_image store_pair (100, - 3) = Inr [0, 99] \<and>
   orig_img store_pair (100, - 3) = [0, 100] \<and>
   percentile [0, 100] 99 = Inr 99 \<and>
   noise_bin store_pair [[0, 99]] [[1]] 0 (100, - 3) (noise_init store_pair) =
     Inr \<lparr>prob = [1 / 2], sqrt_median = [1], sqrt_std = [0], min_intensities = [PInf, Fin 100]\<rparr> \<and>
   [PInf, Fin 100] = update_min [PInf, PInf] [0, 100] \<and>
   diff_img store_pair [[0, 99]] [[1]] 0 (100, - 3) ! 1 = 100 - 99"
proof -
  have c: "clean_image store_pair (100, - 3) = Inr [0, 99]" by code_simp
  have o: "orig_img store_pair (100, - 3) = [0, 100]" by code_simp
  have q: "percentile [0, 100] 99 = Inr 99" by code_simp
  have a: "approx_img store_pair [[0, 99]] [[1]] 0 = [0, 99]" by code_simp
  have g: "get_mz_image store_pair 100 (- 3) = [- 3, 100]"
    by (simp add: store_pair_def)
  have i: "noise_init store_pair = \<lparr>prob = [], sqrt_median = [], sqrt_std = [],
      min_intensities = [PInf, PInf]\<rparr>"
    by (simp add: noise_init_def store_pair_def)
  have n: "noise_bin store_pair [[0, 99]] [[1]] 0 (100, - 3) (noise_init store_pair) =
     Inr \<lparr>prob = [1 / 2], sqrt_median = [1], sqrt_std = [0], min_intensities = [PInf, Fin 100]\<rparr>"
    by (simp add: noise_init_def noise_bin_def Let_def diff_img_def
      approx_img_def lincomb_def orig_img_def clamp_negative_def update_min_def store_pair_def
      median_def std_def mean_def)
  note t = noise_pass_cleaning [of store_pair "(100, - 3)" "[0, 99]" "[[0, 99]]" "[[1]]" 0
      "noise_init store_pair"
      "\<lparr>prob = [1 / 2], sqrt_median = [1], sqrt_std = [0], min_intensities = [PInf, Fin 100]\<rparr>"]
  note t4 = conjunct2 [OF conjunct2 [OF conjunct2 [OF t]], THEN mp, OF n]
  have u: "[PInf, Fin 100] = update_min [PInf, PInf] [0, 100]"
    using conjunct1 [OF t4] by (simp add: i o)
  have one: "1 < height store_pair * width store_pair" by (simp add: store_pair_def)
  have d: "diff_img store_pair [[0, 99]] [[1]] 0 (100, - 3) ! 1 = 100 - 99"
    using conjunct2 [OF t4, rule_format, OF one] by (simp add: g a)
  show ?thesis using c o q n u d by blast
qed

theorem noise_pass_cleaning_counterexample:
  "orig_img store_pair (100, 0) = [0, 100] \<and>
   get_mz_images store_pair [(100, 0)] = Inr [[0, 99]] \<and>
   diff_img store_pair [[0, 99]] [[1]] 0 (100, 0) = [0, 1]"
  by code_simp

section \<open>Bins without signal and pixels without signal\<close>

lemma noise_zero_image:
  assumes run: "noise_statistics rd W H axis = Inr st" and i: "i < length axis"
    and W: "list_all (list_all (\<lambda>v. 0 \<le> v)) W" and h: "list_all (\<lambda>v. 0 \<le> v) (H ! i)"
    and z: "list_all (\<lambda>v. v = 0) (orig_img rd (axis ! i))"
  shows "prob st ! i = 0 \<and> sqrt_median st ! i = 0 \<and> sqrt_std st ! i = 0"
proof -
  note ns = noise_statistics_Inr [OF run]
  let ?n = "height rd * width rd"
  let ?diff = "diff_img rd W H i (axis ! i)"
  have ne: "axis \<noteq> []" using i by auto
  have lw: "list_all (\<lambda>c. length c = ?n) W" using ns(7) ne by simp
  have lo: "length (orig_img rd (axis ! i)) = ?n" using ns(5) i by simp
  have ld: "length ?diff = ?n" using lo by (simp add: diff_img_def approx_img_def)
  have "\<forall>d\<in>set ?diff. \<not> d > 0"
  proof
    fix d assume "d \<in> set ?diff"
    then obtain p where p: "p < ?n" "d = ?diff ! p" using ld by (auto simp: set_conv_nth)
    have a: "0 \<le> approx_img rd W H i ! p"
      unfolding approx_img_def by (rule lincomb_nonneg [OF W h lw p(1)])
    have "orig_img rd (axis ! i) ! p = 0"
      using z lo p(1) by (simp add: list_all_length)
    then have "d = - approx_img rd W H i ! p"
      using diff_img_nth(2) [OF lo p(1)] p(2) by simp
    then show "\<not> d > 0" using a by simp
  qed
  then have e: "filter (\<lambda>d. d > 0) ?diff = []" by (simp add: filter_empty_conv)
  have "prob st ! i = 0" unfolding ns(2) using i e by simp
  moreover have "sqrt_median st ! i = 0" unfolding ns(3) using i e by simp
  moreover have "sqrt_std st ! i = 0" unfolding ns(4) using i e by simp
  ultimately show ?thesis by blast
qed

lemma noise_untouched_pixel:
  assumes run: "noise_statistics rd W H axis = Inr st" and p: "p < height rd * width rd"
    and z: "\<forall>bin\<in>set axis. \<not> orig_img rd bin ! p > 0"
  shows "min_intensities st ! p = PInf"
proof -
  note ns = noise_statistics_Inr [OF run]
  have "{v. \<exists>bin\<in>set axis. v = orig_img rd bin ! p \<and> v > 0} = {}" using z by auto
  then show ?thesis
    unfolding ns(1) using min_map_pixel(1) [OF ns(5) p] by simp
qed

text \<open>
  Claim C7. For a bin whose image in the pass (negative intensities set to 0) is zero
  everywhere, a basis and a coefficient column without negative entries give a
  reconstruction that is at least 0 at every pixel, so no residual is positive and the
  three recorded numbers are 0. In a run that saves an archive the basis is
  non-negative by construction and the coefficients are with a solver that returns
  non-negative matrices, so the archive holds 0, 0 and 0 for such a bin.
\<close>

theorem zero_image_noise:
  "(noise_statistics rd W H mz_axis = Inr st \<and> i < length mz_axis \<and>
      list_all (list_all (\<lambda>v. 0 \<le> v)) W \<and> list_all (\<lambda>v. 0 \<le> v) (H ! i) \<and>
      list_all (\<lambda>v. v = 0) (orig_img rd (mz_axis ! i))
    \<longrightarrow> prob st ! i = 0 \<and> sqrt_median st ! i = 0 \<and> sqrt_std st ! i = 0) \<and>
   (main ev a = Saved path arc \<and> nonneg_solver (nnlsm_blockpivot ev) \<and>
      i < length (arc_mz_axis arc) \<and>
      list_all (\<lambda>v. v = 0) (orig_img (ImzbReader ev (input_path a)) (arc_mz_axis arc ! i))
    \<longrightarrow> arc_noise_prob arc ! i = 0 \<and> arc_noise_sqrt_avg arc ! i = 0 \<and>
        arc_noise_sqrt_std arc ! i = 0)"
proof (rule conjI)
  show "noise_statistics rd W H mz_axis = Inr st \<and> i < length mz_axis \<and>
      list_all (list_all (\<lambda>v. 0 \<le> v)) W \<and> list_all (\<lambda>v. 0 \<le> v) (H ! i) \<and>
      list_all (\<lambda>v. v = 0) (orig_img rd (mz_axis ! i))
    \<longrightarrow> prob st ! i = 0 \<and> sqrt_median st ! i = 0 \<and> sqrt_std st ! i = 0"
    using noise_zero_image by blast
next
  show "main ev a = Saved path arc \<and> nonneg_solver (nnlsm_blockpivot ev) \<and>
      i < length (arc_mz_axis arc) \<and>
      list_all (\<lambda>v. v = 0) (orig_img (ImzbReader ev (input_path a)) (arc_mz_axis arc ! i))
    \<longrightarrow> arc_noise_prob arc ! i = 0 \<and> arc_noise_sqrt_avg arc ! i = 0 \<and>
        arc_noise_sqrt_std arc ! i = 0"
  proof (rule impI)
  assume a: "main ev a = Saved path arc \<and> nonneg_solver (nnlsm_blockpivot ev) \<and>
      i < length (arc_mz_axis arc) \<and>
      list_all (\<lambda>v. v = 0) (orig_img (ImzbReader ev (input_path a)) (arc_mz_axis arc ! i))"
  then have f: "factorize ev a = Inr arc" using main_Saved(2) by blast
  from factorize_Inr [OF f] obtain st where
    st: "noise_statistics (ImzbReader ev (input_path a)) (arc_W arc) (arc_H arc) (arc_mz_axis arc)
           = Inr st" and
    eq: "arc_noise_prob arc = prob st" "arc_noise_sqrt_avg arc = sqrt_median st"
      "arc_noise_sqrt_std arc = sqrt_std st"
    by auto
  have W: "list_all (list_all (\<lambda>v. 0 \<le> v)) (arc_W arc)" by (rule factorize_W_nonneg [OF f])
  have H: "list_all (list_all (\<lambda>v. 0 \<le> v)) (arc_H arc)"
    using factorize_H_nonneg [OF f] a by blast
  have "i < length (arc_H arc)" using noise_statistics_Inr(6) [OF st] a by blast
  then have h: "list_all (\<lambda>v. 0 \<le> v) (arc_H arc ! i)" using H by (simp add: list_all_length)
  have "prob st ! i = 0 \<and> sqrt_median st ! i = 0 \<and> sqrt_std st ! i = 0"
    using noise_zero_image [OF st _ W h] a by blast
  then show "arc_noise_prob arc ! i = 0 \<and> arc_noise_sqrt_avg arc ! i = 0 \<and>
        arc_noise_sqrt_std arc ! i = 0"
    unfolding eq .
  qed
qed

lemma pair_zero_noise:
  "noise_statistics store_pair [[0, 99]] [[2]] [(0, - 1)] =
     Inr \<lparr>prob = [0], sqrt_median = [0], sqrt_std = [0], min_intensities = [PInf, PInf]\<rparr>"
  by (simp add: noise_statistics_def noise_init_def noise_bin_def Let_def diff_img_def
      approx_img_def lincomb_def orig_img_def clamp_negative_def update_min_def store_pair_def
      median_def std_def mean_def)

theorem zero_image_noise_witness:
  "noise_statistics store_pair [[0, 99]] [[2]] [(0, - 1)] =
     Inr \<lparr>prob = [0], sqrt_median = [0], sqrt_std = [0], min_intensities = [PInf, PInf]\<rparr> \<and>
   orig_img store_pair (0, - 1) = [0, 0] \<and>
   [0 :: real] ! 0 = 0 \<and>
   (\<exists>arc. main env_line (args_rank 10) = Saved ''nmf.npz'' arc \<and>
      nonneg_solver (nnlsm_blockpivot env_line) \<and>
      orig_img (ImzbReader env_line (input_path (args_rank 10))) (arc_mz_axis arc ! 0) = [0, 0] \<and>
      arc_noise_prob arc ! 0 = 0 \<and> arc_noise_sqrt_avg arc ! 0 = 0 \<and>
      arc_noise_sqrt_std arc ! 0 = 0)"
proof -
  have o: "orig_img store_pair (0, - 1) = [0, 0]"
    by (simp add: orig_img_def clamp_negative_def store_pair_def)
  let ?st = "\<lparr>prob = [0], sqrt_median = [0], sqrt_std = [0], min_intensities = [PInf, PInf]\<rparr>"
  have hyp1: "noise_statistics store_pair [[0, 99]] [[2]] [(0, - 1)] = Inr ?st \<and>
      0 < length [(0 :: real, - 1 :: real)] \<and>
      list_all (list_all (\<lambda>v. 0 \<le> v)) [[0, 99 :: real]] \<and>
      list_all (\<lambda>v. 0 \<le> v) ([[2 :: real]] ! 0) \<and>
      list_all (\<lambda>v. v = 0) (orig_img store_pair ([(0, - 1)] ! 0))"
    using pair_zero_noise by (simp add: o)
  note t1 = conjunct1 [OF zero_image_noise [of store_pair "[[0, 99]]" "[[2]]" "[(0, - 1)]" ?st 0],
      THEN mp, OF hyp1]
  have c1: "[0 :: real] ! 0 = 0" using t1 by simp
  from line_run obtain arc where
    r: "main env_line (args_rank 10) = Saved ''nmf.npz'' arc" and
    ax: "arc_mz_axis arc = line_axis"
    by blast
  have n: "nonneg_solver (nnlsm_blockpivot env_line)"
    using project_first_nonneg by (simp add: env_line_def)
  have o2: "orig_img (ImzbReader env_line (input_path (args_rank 10))) (arc_mz_axis arc ! 0) = [0, 0]"
    by (simp add: ax line_axis_def env_line_def orig_img_def clamp_negative_def store_line_def)
  have hyp2: "main env_line (args_rank 10) = Saved ''nmf.npz'' arc \<and>
      nonneg_solver (nnlsm_blockpivot env_line) \<and> 0 < length (arc_mz_axis arc) \<and>
      list_all (\<lambda>v. v = 0)
        (orig_img (ImzbReader env_line (input_path (args_rank 10))) (arc_mz_axis arc ! 0))"
    using r n by (simp add: o2) (simp add: ax line_axis_def)
  note t2 = conjunct2 [OF zero_image_noise [of _ _ _ _ _ 0 env_line "args_rank 10" "''nmf.npz''" arc],
      THEN mp, OF hyp2]
  show ?thesis using pair_zero_noise o c1 r n o2 t2 by blast
qed

text \<open>
  Claim C10. A pixel at which no bin's image is positive keeps the \<open>+inf\<close> the map
  was filled with: after the pass, and so in the archive of a run that saves one. The
  run on \<open>store_line\<close> is such a run: its archive holds \<open>+inf\<close> at the second
  pixel.
\<close>

theorem untouched_pixels_stay_infinite:
  "(noise_statistics rd W H mz_axis = Inr st \<and> p < height rd * width rd \<and>
      (\<forall>bin\<in>set mz_axis. \<not> orig_img rd bin ! p > 0)
    \<longrightarrow> min_intensities st ! p = PInf) \<and>
   (main ev a = Saved path arc \<and>
      p < height (ImzbReader ev (input_path a)) * width (ImzbReader ev (input_path a)) \<and>
      (\<forall>bin\<in>set (arc_mz_axis arc). \<not> orig_img (ImzbReader ev (input_path a)) bin ! p > 0)
    \<longrightarrow> arc_min_intensities arc ! p = PInf)"
proof (intro conjI impI)
  assume "noise_statistics rd W H mz_axis = Inr st \<and> p < height rd * width rd \<and>
      (\<forall>bin\<in>set mz_axis. \<not> orig_img rd bin ! p > 0)"
  then show "min_intensities st ! p = PInf" using noise_untouched_pixel by blast
next
  assume a: "main ev a = Saved path arc \<and>
      p < height (ImzbReader ev (input_path a)) * width (ImzbReader ev (input_path a)) \<and>
      (\<forall>bin\<in>set (arc_mz_axis arc). \<not> orig_img (ImzbReader ev (input_path a)) bin ! p > 0)"
  then have f: "factorize ev a = Inr arc" using main_Saved(2) by blast
  from factorize_Inr [OF f] obtain st where
    st: "noise_statistics (ImzbReader ev (input_path a)) (arc_W arc) (arc_H arc) (arc_mz_axis arc)
           = Inr st" and
    eq: "arc_min_intensities arc = min_intensities st"
    by auto
  show "arc_min_intensities arc ! p = PInf"
    unfolding eq using noise_untouched_pixel [OF st] a by blast
qed

theorem untouched_pixels_stay_infinite_witness:
  "noise_statistics store_pair [[0, 99]] [[1], [1]] [(100, 0), (50, - 3)] =
     Inr \<lparr>prob = [1 / 2, 0], sqrt_median = [1, 0], sqrt_std = [0, 0],
          min_intensities = [PInf, Fin 50]\<rparr> \<and>
   [PInf, Fin 50] ! 0 = PInf \<and>
   (\<exists>arc. main env_line (args_rank 10) = Saved ''nmf.npz'' arc \<and>
      arc_min_intensities arc = [Fin 1, PInf] \<and> arc_min_intensities arc ! 1 = PInf)"
proof -
  let ?st = "\<lparr>prob = [1 / 2, 0], sqrt_median = [1, 0], sqrt_std = [0, 0],
          min_intensities = [PInf, Fin 50]\<rparr>"
  have hyp1: "noise_statistics store_pair [[0, 99]] [[1], [1]] [(100, 0), (50, - 3)] = Inr ?st \<and>
      0 < height store_pair * width store_pair \<and>
      (\<forall>bin\<in>set [(100, 0), (50, - 3)]. \<not> orig_img store_pair bin ! 0 > 0)"
    using pair_noise by (simp add: orig_img_def clamp_negative_def store_pair_def)
  note t1 = conjunct1 [OF untouched_pixels_stay_infinite
      [of store_pair "[[0, 99]]" "[[1], [1]]" "[(100, 0), (50, - 3)]" ?st 0], THEN mp, OF hyp1]
  have c1: "[PInf, Fin 50] ! 0 = PInf" using t1 by simp
  from line_run obtain arc where
    r: "main env_line (args_rank 10) = Saved ''nmf.npz'' arc" and
    ax: "arc_mz_axis arc = line_axis" and
    mi: "arc_min_intensities arc = [Fin 1, PInf]"
    by blast
  have hyp2: "main env_line (args_rank 10) = Saved ''nmf.npz'' arc \<and>
      1 < height (ImzbReader env_line (input_path (args_rank 10))) *
          width (ImzbReader env_line (input_path (args_rank 10))) \<and>
      (\<forall>bin\<in>set (arc_mz_axis arc).
         \<not> orig_img (ImzbReader env_line (input_path (args_rank 10))) bin ! 1 > 0)"
    using r by (simp add: ax line_axis_def env_line_def orig_img_def clamp_negative_def store_line_def)
  note t2 = conjunct2 [OF untouched_pixels_stay_infinite
      [of _ _ _ _ _ 1 env_line "args_rank 10" "''nmf.npz''" arc], THEN mp, OF hyp2]
  show ?thesis using pair_noise c1 r mi t2 by blast
qed

section \<open>Runs with fewer bins than the rank\<close>

text \<open>A run whose column selection raises ends with that exception.\<close>

lemma factorize_selection_fails:
  assumes "rd = ImzbReader ev (input_path a)"
    and "0 < min_mz rd - 0.1" and "1 < max_mz rd + 0.1"
    and "axis = generate_mz_axis ev (min_mz rd - 0.1) (max_mz rd + 0.1) a"
    and "compute_arr rd (partition_all K axis) = Inr arr"
    and "x = columns arr (take N_bright (rev (argsort (map sum_list arr))))"
    and "xray_loop (nnlsm_blockpivot ev) (random_draw ev) (height rd * width rd) x (rank a) [] x
           = Inl e"
  shows "factorize ev a = Inl e"
  using assms(2,3,5,7)
  unfolding factorize_def Let_def assms(1) assms(4) assms(6)
  by simp

text \<open>
  Claim C2. The claim is that the pick is never a column selected before, so that the
  assertion of line 104 cannot fail and the loop ends with \<open>rank\<close> distinct columns.
  The code does not keep it on a store with fewer bins than the rank. With the three
  bins of \<open>store_three\<close> and rank 10 the loop selects the columns 0, 1 and 2 (what the
  run with rank 3 returns); in the fourth iteration every score is \<open>-1\<close>, \<open>argmax\<close>
  gives column 0, the assertion fails and the whole run ends in \<open>AssertionError\<close>
  without an archive. By \<open>selection_facts\<close> the same happens with every solver that
  returns matrices of the right shape.
\<close>

theorem three_bins_rank_ten:
  "compute_arr store_three (partition_all K [(101, 1), (102, 1), (103, 1)])
     = Inr [[99 / 100, 0], [99 / 50, 0], [297 / 100, 0]] \<and>
   xray_loop project_first probe_half 2 [[297 / 100, 0], [99 / 50, 0], [99 / 100, 0]] 3 []
       [[297 / 100, 0], [99 / 50, 0], [99 / 100, 0]]
     = Inr ([0, 1, 2], [[0, 0], [0, 0], [0, 0]]) \<and>
   argmax (exclude [0, 1, 2]
       (scores_of [[0, 0], [0, 0], [0, 0]] [[297 / 100, 0], [99 / 50, 0], [99 / 100, 0]] [1 / 2, 1 / 2]))
     = Inr 0 \<and>
   xray_loop project_first probe_half 2 [[297 / 100, 0], [99 / 50, 0], [99 / 100, 0]] 10 []
       [[297 / 100, 0], [99 / 50, 0], [99 / 100, 0]]
     = Inl AssertionError \<and>
   main env_three (args_rank 10) = Raised AssertionError"
proof -
  have ax: "[(101, 1), (102, 1), (103, 1)] =
      generate_mz_axis env_three (min_mz store_three - 0.1) (max_mz store_three + 0.1) (args_rank 10)"
    by code_simp
  have arr: "compute_arr store_three (partition_all K [(101, 1), (102, 1), (103, 1)])
     = Inr [[99 / 100, 0], [99 / 50, 0], [297 / 100, 0]]"
    by code_simp
  have x: "[[297 / 100, 0], [99 / 50, 0], [99 / 100, 0]] =
      columns [[99 / 100, 0], [99 / 50, 0], [297 / 100, 0 :: real]]
        (take N_bright (rev (argsort (map sum_list [[99 / 100, 0], [99 / 50, 0], [297 / 100, 0 :: real]]))))"
    by code_simp
  have three: "xray_loop project_first probe_half 2 [[297 / 100, 0], [99 / 50, 0], [99 / 100, 0]] 3 []
       [[297 / 100, 0], [99 / 50, 0], [99 / 100, 0]]
     = Inr ([0, 1, 2], [[0, 0], [0, 0], [0, 0]])"
    by code_simp
  have pick: "argmax (exclude [0, 1, 2]
       (scores_of [[0, 0], [0, 0], [0, 0]] [[297 / 100, 0], [99 / 50, 0], [99 / 100, 0]] [1 / 2, 1 / 2]))
     = Inr 0"
    by code_simp
  have ten: "xray_loop project_first probe_half 2 [[297 / 100, 0], [99 / 50, 0], [99 / 100, 0]] 10 []
       [[297 / 100, 0], [99 / 50, 0], [99 / 100, 0]]
     = Inl AssertionError"
    by code_simp
  have ten': "xray_loop (nnlsm_blockpivot env_three) (random_draw env_three)
       (height store_three * width store_three) [[297 / 100, 0], [99 / 50, 0], [99 / 100, 0]]
       (rank (args_rank 10)) [] [[297 / 100, 0], [99 / 50, 0], [99 / 100, 0]]
     = Inl AssertionError"
    using ten by (simp add: env_three_def store_three_def args_rank_def)
  have rd: "store_three = ImzbReader env_three (input_path (args_rank 10))"
    by (simp add: env_three_def)
  have lo: "0 < min_mz store_three - 0.1" and hi: "1 < max_mz store_three + 0.1"
    by (simp_all add: store_three_def)
  have f: "factorize env_three (args_rank 10) = Inl AssertionError"
    by (rule factorize_selection_fails [OF rd lo hi ax arr x ten'])
  have "main env_three (args_rank 10) = Raised AssertionError"
    by (simp add: main_def f) (simp add: args_rank_def)
  then show ?thesis using arr three pick ten by blast
qed

text \<open>
  Claim C9. The claim is that for every rank of 10 or more the loop runs \<open>rank\<close>
  iterations and ends with \<open>rank\<close> columns. The loop has no exit on a convergence
  criterion (by \<open>xray_loop_extends\<close> a loop that returns has appended
  \<open>r - len(cols)\<close> columns), but the code does not reach \<open>rank\<close> columns on a store
  with fewer bins than the rank. With the single bin of \<open>store_one\<close> and rank 10 the
  first iteration selects column 0 (what the run with rank 1 returns); in the second
  iteration \<open>argmax\<close> gives column 0 again, the assertion of line 104 fails and the
  whole run ends in \<open>AssertionError\<close>: no list of columns is returned.
\<close>

theorem one_bin_rank_ten:
  "compute_arr store_one (partition_all K [(105, 1)]) = Inr [[99 / 20, 0]] \<and>
   xray_loop project_first probe_half 2 [[99 / 20, 0]] 1 [] [[99 / 20, 0]] = Inr ([0], [[0, 0]]) \<and>
   xray_loop project_first probe_half 2 [[99 / 20, 0]] 10 [] [[99 / 20, 0]] = Inl AssertionError \<and>
   main env_one (args_rank 10) = Raised AssertionError"
proof -
  have ax: "[(105, 1)] =
      generate_mz_axis env_one (min_mz store_one - 0.1) (max_mz store_one + 0.1) (args_rank 10)"
    by code_simp
  have arr: "compute_arr store_one (partition_all K [(105, 1)]) = Inr [[99 / 20, 0]]"
    by code_simp
  have x: "[[99 / 20, 0]] =
      columns [[99 / 20, 0 :: real]] (take N_bright (rev (argsort (map sum_list [[99 / 20, 0 :: real]]))))"
    by code_simp
  have one: "xray_loop project_first probe_half 2 [[99 / 20, 0]] 1 [] [[99 / 20, 0]] = Inr ([0], [[0, 0]])"
    by code_simp
  have ten: "xray_loop project_first probe_half 2 [[99 / 20, 0]] 10 [] [[99 / 20, 0]] = Inl AssertionError"
    by code_simp
  have ten': "xray_loop (nnlsm_blockpivot env_one) (random_draw env_one)
       (height store_one * width store_one) [[99 / 20, 0]] (rank (args_rank 10)) [] [[99 / 20, 0]]
     = Inl AssertionError"
    using ten by (simp add: env_one_def store_one_def args_rank_def)
  have rd: "store_one = ImzbReader env_one (input_path (args_rank 10))"
    by (simp add: env_one_def)
  have lo: "0 < min_mz store_one - 0.1" and hi: "1 < max_mz store_one + 0.1"
    by (simp_all add: store_one_def)
  have f: "factorize env_one (args_rank 10) = Inl AssertionError"
    by (rule factorize_selection_fails [OF rd lo hi ax arr x ten'])
  have "main env_one (args_rank 10) = Raised AssertionError"
    by (simp add: main_def f) (simp add: args_rank_def)
  then show ?thesis using arr one ten by blast
qed

end
